theory Spec2Isabelle
  imports Main "HOL-Library.Char_ord" "HOL-Library.List_Lexorder"
begin

section \<open>Data model (types/meter.ts and the WebSocket message types)\<close>

text \<open>
  The TypeScript interfaces are records. A JavaScript \<^verbatim>\<open>number\<close> is the type
  parameter \<open>'n\<close>: neither the reducer nor the hook computes with the readings, they are
  only stored and copied. An optional field \<^verbatim>\<open>f?: T\<close> is a \<open>T option\<close>.
  A timestamp is a \<^verbatim>\<open>string\<close>; the source compares timestamps with \<^verbatim>\<open>!==\<close>
  only, and "increasing" below is the lexicographic order on strings (the order of
  ISO-8601 timestamps of one format).

  \<^verbatim>\<open>RealtimeData\<close> and \<^verbatim>\<open>MeterSummary\<close> repeat field names of
  \<^verbatim>\<open>TimeseriesPoint\<close>; their fields carry the prefixes \<open>rt_\<close> and \<open>ms_\<close>.
\<close>

record 'n TimeseriesPoint =
  timestamp :: string
  local_time :: "string option"
  voltage :: 'n
  current :: 'n
  active_power :: 'n
  power_factor :: 'n
  frequency :: "'n option"

record 'n RealtimeData =
  rt_voltage :: 'n
  rt_current :: 'n
  rt_active_power :: 'n
  rt_apparent_power :: 'n
  rt_reactive_power :: 'n
  rt_power_factor :: 'n
  rt_frequency :: 'n
  rt_local_time :: string
  rt_import_active_energy :: "'n option"
  rt_export_active_energy :: "'n option"
  rt_power_demand :: "'n option"

record 'n MeterSummary =
  ms_meter_name :: string
  ms_last_reading :: "string option"
  ms_voltage :: "'n option"
  ms_current :: "'n option"
  ms_active_power :: "'n option"
  ms_power_factor :: "'n option"
  ms_frequency :: "'n option"
  ms_import_active_energy :: "'n option"

text \<open>
  A decoded JSON object that the code iterates or spreads
  (\<^verbatim>\<open>Record<string, T>\<close>) is the list of its entries, in the order of
  \<^verbatim>\<open>Object.entries\<close>. The three inbound message shapes are one datatype; the
  arguments of \<open>full_update\<close> are \<^verbatim>\<open>summary?\<close>, \<^verbatim>\<open>realtime?\<close> and
  \<^verbatim>\<open>timeseries_point?\<close>, those of \<open>initial_timeseries\<close> are
  \<^verbatim>\<open>meter_name\<close> and \<^verbatim>\<open>data\<close>, those of \<open>pong\<close> are \<^verbatim>\<open>timestamp\<close>
  and \<^verbatim>\<open>server_time\<close>.
\<close>

datatype 'n WebSocketMessage =
    full_update
      "'n MeterSummary list option"
      "(string \<times> 'n RealtimeData) list option"
      "(string \<times> 'n TimeseriesPoint) list option"
  | initial_timeseries string "'n TimeseriesPoint list"
  | pong 'n string

datatype 'n WebSocketOutgoingMessage =
    request_update
  | request_timeseries string
  | ping 'n

section \<open>Stream reducer (Dashboard.handleWebSocketMessage)\<close>

text \<open>
  The state the handler writes: \<^verbatim>\<open>readings\<close>, \<^verbatim>\<open>realtimeData\<close>,
  \<^verbatim>\<open>timeseriesData\<close> and \<^verbatim>\<open>loading\<close>. The two tables are objects indexed by
  meter name, here maps. Each \<^verbatim>\<open>setX(prev => ...)\<close> is applied to the state in
  the order of the calls.
\<close>

record 'n dashboard =
  readings :: "'n MeterSummary list"
  realtimeData :: "string \<rightharpoonup> 'n RealtimeData"
  timeseriesData :: "string \<rightharpoonup> 'n TimeseriesPoint list"
  loading :: bool

definition initial_dashboard :: "'n dashboard" where
  "initial_dashboard =
     \<lparr>readings = [], realtimeData = Map.empty, timeseriesData = Map.empty, loading = True\<rparr>"

definition MAX_TIMESERIES_POINTS :: nat where
  "MAX_TIMESERIES_POINTS = 450"

text \<open>\<^verbatim>\<open>xs.slice(-n)\<close> for \<open>n > 0\<close>: the last \<open>n\<close> elements, all of them when there
  are fewer.\<close>

definition slice_last :: "nat \<Rightarrow> 'a list \<Rightarrow> 'a list" where
  "slice_last n xs = drop (length xs - n) xs"

text \<open>\<^verbatim>\<open>{ ...prev, ...obj }\<close>: every entry of \<open>obj\<close> is written over \<open>prev\<close>.\<close>

definition spread :: "('k \<rightharpoonup> 'v) \<Rightarrow> ('k \<times> 'v) list \<Rightarrow> ('k \<rightharpoonup> 'v)" where
  "spread prev obj = fold (\<lambda>(k, v) m. m(k \<mapsto> v)) obj prev"

text \<open>
  The tables are plain JavaScript objects (\<^verbatim>\<open>{}\<close> and spreads of it), so a read
  \<^verbatim>\<open>updated[meterName]\<close> that finds no own property continues in
  \<^verbatim>\<open>Object.prototype\<close>. Its members, as ECMAScript (with Annex B, which browsers
  implement) defines them, are listed here; each is a function or an object, hence truthy.
  A table is modelled as the map of its own properties, and a read distinguishes the two
  kinds of value it can meet.
\<close>

definition Object_prototype_members :: "string list" where
  "Object_prototype_members =
     [''constructor'', ''__defineGetter__'', ''__defineSetter__'', ''hasOwnProperty'',
      ''__lookupGetter__'', ''__lookupSetter__'', ''isPrototypeOf'', ''propertyIsEnumerable'',
      ''toString'', ''valueOf'', ''__proto__'', ''toLocaleString'']"

definition inherited_member :: "string \<Rightarrow> bool" where
  "inherited_member name \<longleftrightarrow> name \<in> set Object_prototype_members"

datatype 'a property_value = array_value "'a list" | inherited_value

text \<open>\<^verbatim>\<open>updated[meterName] || []\<close>: the own array (an array is truthy, also when
  empty), else the inherited member, else the empty array.\<close>

definition get_or_empty :: "(string \<rightharpoonup> 'a list) \<Rightarrow> string \<Rightarrow> 'a property_value" where
  "get_or_empty updated meterName =
     (case updated meterName of
        Some xs \<Rightarrow> array_value xs
      | None \<Rightarrow> if inherited_member meterName then inherited_value else array_value [])"

datatype js_error = TypeError

text \<open>
  The body of the \<^verbatim>\<open>forEach\<close> over the entries of \<^verbatim>\<open>timeseries_point\<close>.
  \<^verbatim>\<open>existing[existing.length - 1]\<close> is \<^verbatim>\<open>undefined\<close> for the empty array,
  which \<^verbatim>\<open>!lastPoint\<close> accepts. For an inherited member it is \<^verbatim>\<open>undefined\<close> as
  well (a function has no indexed properties, and \<^verbatim>\<open>Object.prototype\<close> has no
  \<^verbatim>\<open>length\<close>), so the branch is taken and \<^verbatim>\<open>[...existing, point]\<close> throws a
  \<^verbatim>\<open>TypeError\<close>: the member is not iterable. The assignment
  \<^verbatim>\<open>updated[meterName] = ...\<close> writes an own property (for the key
  \<^verbatim>\<open>__proto__\<close> too, since it is reached only when the own property exists).
\<close>

definition append_point ::
  "string \<times> 'n TimeseriesPoint \<Rightarrow> (string \<rightharpoonup> 'n TimeseriesPoint list)
     \<Rightarrow> js_error + (string \<rightharpoonup> 'n TimeseriesPoint list)" where
  "append_point entry updated =
     (case entry of (meterName, point) \<Rightarrow>
        (case get_or_empty updated meterName of
           inherited_value \<Rightarrow> Inl TypeError
         | array_value existing \<Rightarrow>
             if existing = [] \<or> timestamp (last existing) \<noteq> timestamp point
             then let newData = existing @ [point]
                  in Inr (updated(meterName \<mapsto> slice_last MAX_TIMESERIES_POINTS newData))
             else Inr updated))"

text \<open>The \<^verbatim>\<open>forEach\<close>: the entries in order; a throw ends it.\<close>

fun append_points ::
  "(string \<times> 'n TimeseriesPoint) list \<Rightarrow> (string \<rightharpoonup> 'n TimeseriesPoint list)
     \<Rightarrow> js_error + (string \<rightharpoonup> 'n TimeseriesPoint list)" where
  "append_points [] updated = Inr updated"
| "append_points (e # es) updated =
     (case append_point e updated of
        Inl err \<Rightarrow> Inl err
      | Inr updated' \<Rightarrow> append_points es updated')"

text \<open>
  The handler. The state updates of one message are batched into one render; when the
  updater of \<^verbatim>\<open>timeseriesData\<close> throws, the render fails and none of them is
  committed: the result is the error. In the \<open>initial_timeseries\<close> branch the guard
  \<^verbatim>\<open>data.meter_name && data.data\<close> is false for the empty meter name (the empty
  string is falsy); an array is always truthy.
\<close>

fun handleWebSocketMessage ::
  "'n WebSocketMessage \<Rightarrow> 'n dashboard \<Rightarrow> js_error + 'n dashboard" where
  "handleWebSocketMessage (full_update summary realtime timeseries_point) s =
     (let s1 = (case summary of None \<Rightarrow> s | Some sm \<Rightarrow> s\<lparr>readings := sm\<rparr>);
          s2 = (case realtime of None \<Rightarrow> s1
                | Some rt \<Rightarrow> s1\<lparr>realtimeData := spread (realtimeData s1) rt\<rparr>)
      in (case timeseries_point of
            None \<Rightarrow> Inr (s2\<lparr>loading := False\<rparr>)
          | Some tp \<Rightarrow>
              (case append_points tp (timeseriesData s2) of
                 Inl err \<Rightarrow> Inl err
               | Inr updated \<Rightarrow> Inr (s2\<lparr>timeseriesData := updated, loading := False\<rparr>))))"
| "handleWebSocketMessage (initial_timeseries meter_name data) s =
     (if meter_name \<noteq> []
      then Inr (s\<lparr>timeseriesData := (timeseriesData s)(meter_name \<mapsto> data)\<rparr>)
      else Inr s)"
| "handleWebSocketMessage (pong t server_time) s = Inr s"

text \<open>The reducer applied to a stream of messages in arrival order, up to the first
  message whose updates throw.\<close>

fun apply_messages ::
  "'n WebSocketMessage list \<Rightarrow> 'n dashboard \<Rightarrow> js_error + 'n dashboard" where
  "apply_messages [] s = Inr s"
| "apply_messages (m # ms) s =
     (case handleWebSocketMessage m s of
        Inl err \<Rightarrow> Inl err
      | Inr s' \<Rightarrow> apply_messages ms s')"

section \<open>Notions used to state the reducer's properties\<close>

text \<open>The series stored for a meter; a meter without an entry has the empty series
  (\<^verbatim>\<open>updated[meterName] || []\<close>).\<close>

definition series_of :: "(string \<rightharpoonup> 'a list) \<Rightarrow> string \<Rightarrow> 'a list" where
  "series_of u k = (case u k of None \<Rightarrow> [] | Some xs \<Rightarrow> xs)"

text \<open>The invariant of one series: strictly increasing timestamps and at most
  \<open>MAX_TIMESERIES_POINTS\<close> points; and the invariant of the state: every stored series
  satisfies it.\<close>

definition series_ok :: "'n TimeseriesPoint list \<Rightarrow> bool" where
  "series_ok xs \<longleftrightarrow> sorted_wrt (<) (map timestamp xs) \<and> length xs \<le> MAX_TIMESERIES_POINTS"

definition series_inv :: "'n dashboard \<Rightarrow> bool" where
  "series_inv s \<longleftrightarrow> (\<forall>xs \<in> ran (timeseriesData s). series_ok xs)"

text \<open>What \<open>append_point\<close> does to the series of the meter it names, when it does not
  throw (lemma \<open>append_point_same\<close> below).\<close>

definition push_point :: "'n TimeseriesPoint \<Rightarrow> 'n TimeseriesPoint list \<Rightarrow> 'n TimeseriesPoint list" where
  "push_point p xs =
     (if xs = [] \<or> timestamp (last xs) \<noteq> timestamp p
      then slice_last MAX_TIMESERIES_POINTS (xs @ [p]) else xs)"

text \<open>
  Input that arrives in time order. A point is in order when it is not older than the
  last point stored for its meter; the entries of one \<^verbatim>\<open>timeseries_point\<close> object
  are judged one after the other, as the \<^verbatim>\<open>forEach\<close> applies them; an
  \<open>initial_timeseries\<close> array is in order when it satisfies the series invariant itself;
  a stream is in order when each message is in order in the state it is applied to (the
  run ends at a message that throws, and nothing is asked of the messages after it).
\<close>

definition point_in_order ::
  "string \<times> 'n TimeseriesPoint \<Rightarrow> (string \<rightharpoonup> 'n TimeseriesPoint list) \<Rightarrow> bool" where
  "point_in_order entry updated =
     (case entry of (meterName, point) \<Rightarrow>
        (case updated meterName of None \<Rightarrow> True
         | Some xs \<Rightarrow> xs = [] \<or> timestamp (last xs) \<le> timestamp point))"

fun points_in_order ::
  "(string \<times> 'n TimeseriesPoint) list \<Rightarrow> (string \<rightharpoonup> 'n TimeseriesPoint list) \<Rightarrow> bool" where
  "points_in_order [] updated = True"
| "points_in_order (e # es) updated =
     (point_in_order e updated \<and>
      (case append_point e updated of
         Inl err \<Rightarrow> True
       | Inr updated' \<Rightarrow> points_in_order es updated'))"

fun message_in_order :: "'n WebSocketMessage \<Rightarrow> 'n dashboard \<Rightarrow> bool" where
  "message_in_order (full_update summary realtime (Some tp)) s =
     points_in_order tp (timeseriesData s)"
| "message_in_order (initial_timeseries meter_name data) s = series_ok data"
| "message_in_order m s = True"

fun stream_in_order :: "'n WebSocketMessage list \<Rightarrow> 'n dashboard \<Rightarrow> bool" where
  "stream_in_order [] s = True"
| "stream_in_order (m # ms) s =
     (message_in_order m s \<and>
      (case handleWebSocketMessage m s of
         Inl err \<Rightarrow> True
       | Inr s' \<Rightarrow> stream_in_order ms s'))"

text \<open>
  A message carries point \<open>p\<close> for meter \<open>dev\<close>: it is a \<open>full_update\<close> whose
  \<^verbatim>\<open>timeseries_point\<close> object has the entry \<open>dev: p\<close>. The keys of a decoded
  object are distinct. \<open>point_update\<close> is the smallest such message.
\<close>

fun carries :: "string \<Rightarrow> 'n TimeseriesPoint \<Rightarrow> 'n WebSocketMessage \<Rightarrow> bool" where
  "carries dev p (full_update summary realtime (Some tp)) =
     (distinct (map fst tp) \<and> (dev, p) \<in> set tp)"
| "carries dev p m = False"

definition point_update :: "string \<Rightarrow> 'n TimeseriesPoint \<Rightarrow> 'n WebSocketMessage" where
  "point_update dev p = full_update None None (Some [(dev, p)])"

text \<open>Concrete readings for the examples: a point with a given timestamp, a snapshot
  with a given voltage, and the \<open>i\<close>-th of an increasing sequence of timestamps.\<close>

definition point_at :: "string \<Rightarrow> int TimeseriesPoint" where
  "point_at t = \<lparr>timestamp = t, local_time = None, voltage = 230, current = 2,
     active_power = 460, power_factor = 1, frequency = Some 50\<rparr>"


definition stamp :: "nat \<Rightarrow> string" where
  "stamp i = replicate (Suc i) CHR ''1''"

section \<open>Connection manager (the useWebSocket hook)\<close>

definition HEARTBEAT_INTERVAL_MS :: nat where
  "HEARTBEAT_INTERVAL_MS = 25000"

definition HEARTBEAT_TIMEOUT_MS :: nat where
  "HEARTBEAT_TIMEOUT_MS = 10000"

definition BASE_RECONNECT_DELAY_MS :: nat where
  "BASE_RECONNECT_DELAY_MS = 1000"

definition MAX_RECONNECT_DELAY_MS :: nat where
  "MAX_RECONNECT_DELAY_MS = 30000"

definition MAX_RECONNECT_ATTEMPTS :: nat where
  "MAX_RECONNECT_ATTEMPTS = 10"

subsection \<open>The browser objects the hook holds\<close>

text \<open>
  The hook keeps references to WebSocket objects and to timers, and a handler attached
  to a socket stays attached after \<^verbatim>\<open>wsRef.current\<close> moves on. So the state holds a
  store of every socket created so far (socket \<open>i\<close> is position \<open>i\<close> of \<open>sockets\<close>,
  holding its \<^verbatim>\<open>readyState\<close>) and the list of pending timers with their ids; a ref
  holds an id or \<^verbatim>\<open>null\<close>. A timer id is a positive number (a truthy value, as
  the tests \<^verbatim>\<open>if (ref.current)\<close> expect); the id of a timeout that has fired stays in
  its ref, as in the source, which never resets it there.

  A pending timer is described by what it will run: \<open>timeout_connect d\<close> is
  \<^verbatim>\<open>setTimeout(connect, d)\<close>, \<open>interval_heartbeat d\<close> is the \<^verbatim>\<open>setInterval\<close> of
  \<^verbatim>\<open>startHeartbeat\<close>, \<open>timeout_pong d\<close> is the \<^verbatim>\<open>setTimeout\<close> that waits
  for the pong.

  What the hook does to the outside is recorded in \<open>effects\<close>, in order: the calls
  of the five callbacks and the frames handed to \<^verbatim>\<open>WebSocket.send\<close> (with the socket).
  Console output is not recorded.
\<close>

datatype readyState = CONNECTING | OPEN | CLOSING | CLOSED

datatype timer_task = timeout_connect nat | interval_heartbeat nat | timeout_pong nat

datatype 'n effect =
    onMessage_called "'n WebSocketMessage"
  | onConnect_called
  | onDisconnect_called
  | onError_called
  | onMaxRetriesExceeded_called
  | ws_sent nat "'n WebSocketOutgoingMessage"

record 'n hook =
  sockets :: "readyState list"
  timers :: "(nat \<times> timer_task) list"
  next_timer :: nat
  wsRef :: "nat option"
  reconnectTimeoutRef :: "nat option"
  heartbeatIntervalRef :: "nat option"
  heartbeatTimeoutRef :: "nat option"
  reconnectAttemptsRef :: nat
  isConnected :: bool
  reconnectAttempts :: nat
  isMountedRef :: bool
  effects :: "'n effect list"

text \<open>The hook before its effect has run: \<^verbatim>\<open>useRef(null)\<close>, \<^verbatim>\<open>useRef(0)\<close>,
  \<^verbatim>\<open>useState(false)\<close>, \<^verbatim>\<open>useState(0)\<close>, \<^verbatim>\<open>useRef(true)\<close>.\<close>

definition initial_hook :: "'n hook" where
  "initial_hook =
     \<lparr>sockets = [], timers = [], next_timer = 1, wsRef = None, reconnectTimeoutRef = None,
      heartbeatIntervalRef = None, heartbeatTimeoutRef = None, reconnectAttemptsRef = 0,
      isConnected = False, reconnectAttempts = 0, isMountedRef = True, effects = []\<rparr>"

text \<open>\<^verbatim>\<open>setTimeout\<close>/\<^verbatim>\<open>setInterval\<close> return a fresh id;
  \<^verbatim>\<open>clearTimeout\<close>/\<^verbatim>\<open>clearInterval\<close> remove the timer with that id, if it is
  pending.\<close>

definition setTimer :: "timer_task \<Rightarrow> 'n hook \<Rightarrow> nat \<times> 'n hook" where
  "setTimer task s =
     (next_timer s, s\<lparr>timers := timers s @ [(next_timer s, task)], next_timer := Suc (next_timer s)\<rparr>)"

definition clearTimer :: "nat \<Rightarrow> 'n hook \<Rightarrow> 'n hook" where
  "clearTimer t s = s\<lparr>timers := filter (\<lambda>(i, task). i \<noteq> t) (timers s)\<rparr>"

text \<open>\<open>socket_in s st i\<close>: socket \<open>i\<close> exists and its \<^verbatim>\<open>readyState\<close> is \<open>st\<close>.
  \<^verbatim>\<open>new WebSocket(url)\<close> starts in \<open>CONNECTING\<close>; \<^verbatim>\<open>close()\<close> moves a
  connecting or open socket to \<open>CLOSING\<close> and does nothing otherwise (the close event
  comes later); \<^verbatim>\<open>send\<close> transmits a frame.\<close>

definition socket_in :: "'n hook \<Rightarrow> readyState \<Rightarrow> nat \<Rightarrow> bool" where
  "socket_in s st i \<longleftrightarrow> i < length (sockets s) \<and> sockets s ! i = st"

definition ws_new :: "'n hook \<Rightarrow> nat \<times> 'n hook" where
  "ws_new s = (length (sockets s), s\<lparr>sockets := sockets s @ [CONNECTING]\<rparr>)"

definition ws_close :: "nat \<Rightarrow> 'n hook \<Rightarrow> 'n hook" where
  "ws_close i s =
     (if socket_in s CONNECTING i \<or> socket_in s OPEN i
      then s\<lparr>sockets := (sockets s)[i := CLOSING]\<rparr> else s)"

definition ws_send :: "nat \<Rightarrow> 'n WebSocketOutgoingMessage \<Rightarrow> 'n hook \<Rightarrow> 'n hook" where
  "ws_send i m s = s\<lparr>effects := effects s @ [ws_sent i m]\<rparr>"

subsection \<open>The functions of the hook\<close>

definition stopHeartbeat :: "'n hook \<Rightarrow> 'n hook" where
  "stopHeartbeat s =
     (let s1 = (case heartbeatIntervalRef s of None \<Rightarrow> s
                | Some t \<Rightarrow> (clearTimer t s)\<lparr>heartbeatIntervalRef := None\<rparr>)
      in (case heartbeatTimeoutRef s1 of None \<Rightarrow> s1
          | Some t \<Rightarrow> (clearTimer t s1)\<lparr>heartbeatTimeoutRef := None\<rparr>))"

definition startHeartbeat :: "'n hook \<Rightarrow> 'n hook" where
  "startHeartbeat s =
     (case setTimer (interval_heartbeat HEARTBEAT_INTERVAL_MS) (stopHeartbeat s) of
        (t, s1) \<Rightarrow> s1\<lparr>heartbeatIntervalRef := Some t\<rparr>)"

text \<open>The callback of the heartbeat interval; \<open>now\<close> is \<^verbatim>\<open>Date.now()\<close>. The
  callback of the pong timeout follows.\<close>

definition heartbeat_interval_callback :: "'n \<Rightarrow> 'n hook \<Rightarrow> 'n hook" where
  "heartbeat_interval_callback now s =
     (case wsRef s of
        None \<Rightarrow> s
      | Some i \<Rightarrow>
          if socket_in s OPEN i
          then (case setTimer (timeout_pong HEARTBEAT_TIMEOUT_MS) (ws_send i (ping now) s) of
                  (t, s1) \<Rightarrow> s1\<lparr>heartbeatTimeoutRef := Some t\<rparr>)
          else s)"

definition heartbeat_timeout_callback :: "'n hook \<Rightarrow> 'n hook" where
  "heartbeat_timeout_callback s = (case wsRef s of None \<Rightarrow> s | Some i \<Rightarrow> ws_close i s)"

text \<open>
  \<^verbatim>\<open>Math.min(BASE * Math.pow(2, attempts), MAX)\<close>. The counter is a natural number;
  \<open>1000 * 2 ^ a\<close> is exact in double precision as long as it is finite, and where
  \<^verbatim>\<open>Math.pow\<close> overflows to \<^verbatim>\<open>Infinity\<close> the minimum is \<open>MAX\<close>, as it is
  here.
\<close>

definition getReconnectDelay :: "'n hook \<Rightarrow> nat" where
  "getReconnectDelay s =
     min (BASE_RECONNECT_DELAY_MS * 2 ^ reconnectAttemptsRef s) MAX_RECONNECT_DELAY_MS"

text \<open>\<open>connect\<close>, in a browser (\<^verbatim>\<open>window\<close> is defined wherever an effect or a
  timer runs). The handlers it attaches are the four functions after it; they read the
  refs, not the socket, so they are the same for every socket.\<close>

definition connect :: "'n hook \<Rightarrow> 'n hook" where
  "connect s =
     (if \<not> isMountedRef s then s
      else if (case wsRef s of None \<Rightarrow> False
               | Some i \<Rightarrow> socket_in s CONNECTING i \<or> socket_in s OPEN i) then s
      else (case ws_new s of (i, s1) \<Rightarrow> s1\<lparr>wsRef := Some i\<rparr>))"

definition onopen :: "'n hook \<Rightarrow> 'n hook" where
  "onopen s =
     (if \<not> isMountedRef s then s
      else let s1 = startHeartbeat
                      (s\<lparr>isConnected := True, reconnectAttemptsRef := 0, reconnectAttempts := 0\<rparr>)
           in s1\<lparr>effects := effects s1 @ [onConnect_called]\<rparr>)"

text \<open>An inbound frame either fails in the \<^verbatim>\<open>try\<close> block before anything is done
  (\<^verbatim>\<open>JSON.parse\<close> throws; the error is logged) or decodes to a message.\<close>

datatype 'n frame = malformed | decoded "'n WebSocketMessage"

definition onmessage :: "'n frame \<Rightarrow> 'n hook \<Rightarrow> 'n hook" where
  "onmessage f s =
     (if \<not> isMountedRef s then s
      else (case f of
              malformed \<Rightarrow> s
            | decoded (pong t server_time) \<Rightarrow>
                (case heartbeatTimeoutRef s of
                   None \<Rightarrow> s
                 | Some timeout \<Rightarrow> (clearTimer timeout s)\<lparr>heartbeatTimeoutRef := None\<rparr>)
            | decoded m \<Rightarrow> s\<lparr>effects := effects s @ [onMessage_called m]\<rparr>))"

definition onerror :: "'n hook \<Rightarrow> 'n hook" where
  "onerror s =
     (if \<not> isMountedRef s then s
      else s\<lparr>isConnected := False, effects := effects s @ [onError_called]\<rparr>)"

definition onclose :: "'n hook \<Rightarrow> 'n hook" where
  "onclose s =
     (if \<not> isMountedRef s then s
      else let s1 = stopHeartbeat (s\<lparr>isConnected := False\<rparr>);
               s2 = s1\<lparr>effects := effects s1 @ [onDisconnect_called]\<rparr>
           in if reconnectAttemptsRef s2 \<ge> MAX_RECONNECT_ATTEMPTS
              then s2\<lparr>effects := effects s2 @ [onMaxRetriesExceeded_called]\<rparr>
              else let delay = getReconnectDelay s2;
                       s3 = s2\<lparr>reconnectAttemptsRef := reconnectAttemptsRef s2 + 1\<rparr>;
                       s4 = s3\<lparr>reconnectAttempts := reconnectAttemptsRef s3\<rparr>
                   in (case setTimer (timeout_connect delay) s4 of
                         (t, s5) \<Rightarrow> s5\<lparr>reconnectTimeoutRef := Some t\<rparr>))"

definition disconnect :: "'n hook \<Rightarrow> 'n hook" where
  "disconnect s =
     (let s1 = stopHeartbeat s;
          s2 = (case reconnectTimeoutRef s1 of None \<Rightarrow> s1
                | Some t \<Rightarrow> (clearTimer t s1)\<lparr>reconnectTimeoutRef := None\<rparr>)
      in (case wsRef s2 of
            None \<Rightarrow> s2
          | Some i \<Rightarrow>
              (if socket_in s2 OPEN i \<or> socket_in s2 CONNECTING i then ws_close i s2 else s2)
              \<lparr>wsRef := None\<rparr>))"

definition send :: "'n WebSocketOutgoingMessage \<Rightarrow> 'n hook \<Rightarrow> 'n hook" where
  "send message s =
     (case wsRef s of
        None \<Rightarrow> s
      | Some i \<Rightarrow> if socket_in s OPEN i then ws_send i message s else s)"

definition resetConnection :: "'n hook \<Rightarrow> 'n hook" where
  "resetConnection s =
     (if \<not> isMountedRef s then s
      else connect (disconnect (s\<lparr>reconnectAttemptsRef := 0, reconnectAttempts := 0\<rparr>)))"

text \<open>The effect of the hook (run on mount) and its cleanup (run on unmount).\<close>

definition effect_setup :: "'n hook \<Rightarrow> 'n hook" where
  "effect_setup s = connect (s\<lparr>isMountedRef := True\<rparr>)"

definition effect_cleanup :: "'n hook \<Rightarrow> 'n hook" where
  "effect_cleanup s = disconnect (s\<lparr>isMountedRef := False\<rparr>)"

subsection \<open>Events and runs\<close>

text \<open>
  Everything that runs code of the hook is an event of the single-threaded event loop: an
  event of a socket (the browser sets the \<^verbatim>\<open>readyState\<close>, then calls the handler), a
  timer that fires (\<open>now\<close> is the clock read by the callback), a call of one of the
  functions the hook returns, the effect and its cleanup. \<open>step e s\<close> is \<open>None\<close> when
  the event cannot occur in \<open>s\<close>: a socket opens only while connecting, delivers messages
  only while open, and has errors and closes only before it is closed; only a pending timer
  fires, and a timeout is no longer pending once it has fired.
\<close>

datatype 'n event =
    ws_open_event nat
  | ws_message_event nat "'n frame"
  | ws_error_event nat
  | ws_close_event nat
  | timer_event nat 'n
  | call_send "'n WebSocketOutgoingMessage"
  | call_disconnect
  | call_resetConnection
  | run_effect
  | run_cleanup

fun step :: "'n event \<Rightarrow> 'n hook \<Rightarrow> 'n hook option" where
  "step (ws_open_event i) s =
     (if socket_in s CONNECTING i then Some (onopen (s\<lparr>sockets := (sockets s)[i := OPEN]\<rparr>))
      else None)"
| "step (ws_message_event i f) s =
     (if socket_in s OPEN i then Some (onmessage f s) else None)"
| "step (ws_error_event i) s =
     (if i < length (sockets s) \<and> \<not> socket_in s CLOSED i then Some (onerror s) else None)"
| "step (ws_close_event i) s =
     (if i < length (sockets s) \<and> \<not> socket_in s CLOSED i
      then Some (onclose (s\<lparr>sockets := (sockets s)[i := CLOSED]\<rparr>)) else None)"
| "step (timer_event t now) s =
     (case map_of (timers s) t of
        None \<Rightarrow> None
      | Some (timeout_connect d) \<Rightarrow> Some (connect (clearTimer t s))
      | Some (interval_heartbeat d) \<Rightarrow> Some (heartbeat_interval_callback now s)
      | Some (timeout_pong d) \<Rightarrow> Some (heartbeat_timeout_callback (clearTimer t s)))"
| "step (call_send m) s = Some (send m s)"
| "step call_disconnect s = Some (disconnect s)"
| "step call_resetConnection s = Some (resetConnection s)"
| "step run_effect s = Some (effect_setup s)"
| "step run_cleanup s = Some (effect_cleanup s)"

fun run :: "'n event list \<Rightarrow> 'n hook \<Rightarrow> 'n hook option" where
  "run [] s = Some s"
| "run (e # es) s = (case step e s of None \<Rightarrow> None | Some s' \<Rightarrow> run es s')"

text \<open>The events that happen by themselves, as opposed to calls into the hook.\<close>

fun automatic :: "'n event \<Rightarrow> bool" where
  "automatic (ws_open_event i) = True"
| "automatic (ws_message_event i f) = True"
| "automatic (ws_error_event i) = True"
| "automatic (ws_close_event i) = True"
| "automatic (timer_event t now) = True"
| "automatic e = False"

inductive reachable :: "'n hook \<Rightarrow> bool" where
  reachable_initial: "reachable initial_hook"
| reachable_step: "reachable s \<Longrightarrow> step e s = Some s' \<Longrightarrow> reachable s'"

section \<open>Notions used to state the connection manager's properties\<close>

text \<open>The transport is open: \<^verbatim>\<open>wsRef.current\<close> is a socket whose
  \<^verbatim>\<open>readyState\<close> is \<open>OPEN\<close>.\<close>

definition transport_open :: "'n hook \<Rightarrow> bool" where
  "transport_open s \<longleftrightarrow> (case wsRef s of None \<Rightarrow> False | Some i \<Rightarrow> socket_in s OPEN i)"

text \<open>
  An invariant of the reachable states: \<^verbatim>\<open>wsRef.current\<close> is a socket that was
  created, every other socket is closing or closed, and an unmounted hook holds no socket.
\<close>

definition wf_sockets :: "'n hook \<Rightarrow> bool" where
  "wf_sockets s \<longleftrightarrow>
     (\<forall>i. wsRef s = Some i \<longrightarrow> i < length (sockets s))
     \<and> (\<forall>i < length (sockets s). wsRef s \<noteq> Some i \<longrightarrow>
           sockets s ! i = CLOSING \<or> sockets s ! i = CLOSED)
     \<and> (\<not> isMountedRef s \<longrightarrow> wsRef s = None)"

text \<open>
  The messages handed to \<^verbatim>\<open>onMessage\<close> so far, in order; the pongs; and the
  messages of a list of inbound frames that are meant for the application (decoded and not
  a pong).
\<close>

fun forwarded :: "'n effect list \<Rightarrow> 'n WebSocketMessage list" where
  "forwarded [] = []"
| "forwarded (onMessage_called m # es) = m # forwarded es"
| "forwarded (e # es) = forwarded es"

fun is_pong :: "'n WebSocketMessage \<Rightarrow> bool" where
  "is_pong (pong t server_time) = True"
| "is_pong m = False"

fun application_messages :: "'n frame list \<Rightarrow> 'n WebSocketMessage list" where
  "application_messages [] = []"
| "application_messages (malformed # fs) = application_messages fs"
| "application_messages (decoded m # fs) =
     (if is_pong m then application_messages fs else m # application_messages fs)"

definition pong_free :: "'n effect list \<Rightarrow> bool" where
  "pong_free es \<longleftrightarrow> list_all (\<lambda>m. \<not> is_pong m) (forwarded es)"

text \<open>
  \<open>cleared_by_disconnect s t\<close>: timer \<open>t\<close> is one of those the refs of \<open>s\<close> name; these
  are the timers \<open>disconnect\<close> cancels.
\<close>

definition cleared_by_disconnect :: "'n hook \<Rightarrow> nat \<Rightarrow> bool" where
  "cleared_by_disconnect s t \<longleftrightarrow>
     heartbeatIntervalRef s = Some t \<or> heartbeatTimeoutRef s = Some t \<or> reconnectTimeoutRef s = Some t"

text \<open>
  A mounted hook that waits to reconnect: every socket is closed, no heartbeat is armed,
  and the one pending timer is the reconnect timer, set with the delay of the attempt just
  counted. A hook with nothing pending is \<open>dormant\<close>: no timer, every socket closed.

  One failed reconnect attempt: the reconnect timer fires (\<open>connect\<close> creates the next
  socket), the new socket reports an error and closes. \<open>failed_reconnects now k\<close> is
  \<open>k\<close> such attempts in a row; it is \<open>None\<close> when one of the events cannot occur.
\<close>

definition in_backoff :: "'n hook \<Rightarrow> bool" where
  "in_backoff s \<longleftrightarrow>
     isMountedRef s \<and> list_all (\<lambda>r. r = CLOSED) (sockets s)
     \<and> heartbeatIntervalRef s = None \<and> heartbeatTimeoutRef s = None
     \<and> 0 < reconnectAttemptsRef s
     \<and> (case reconnectTimeoutRef s of
           None \<Rightarrow> False
         | Some t \<Rightarrow>
             timers s = [(t, timeout_connect
               (min (BASE_RECONNECT_DELAY_MS * 2 ^ (reconnectAttemptsRef s - 1))
                    MAX_RECONNECT_DELAY_MS))])"

definition dormant :: "'n hook \<Rightarrow> bool" where
  "dormant s \<longleftrightarrow> timers s = [] \<and> list_all (\<lambda>r. r = CLOSED) (sockets s)"

definition failed_reconnect :: "'n \<Rightarrow> 'n hook \<Rightarrow> 'n hook option" where
  "failed_reconnect now s =
     (case reconnectTimeoutRef s of
        None \<Rightarrow> None
      | Some t \<Rightarrow>
          run [timer_event t now, ws_error_event (length (sockets s)),
               ws_close_event (length (sockets s))] s)"

fun failed_reconnects :: "'n \<Rightarrow> nat \<Rightarrow> 'n hook \<Rightarrow> 'n hook option" where
  "failed_reconnects now 0 s = Some s"
| "failed_reconnects now (Suc k) s =
     (case failed_reconnect now s of None \<Rightarrow> None | Some s' \<Rightarrow> failed_reconnects now k s')"

text \<open>
  Runs in which every connection attempt fails: the events are those the environment
  raises (\<open>automatic\<close>), and no socket ever opens. \<open>closes es\<close> counts the close events
  of a run, that is, the failed attempts; \<open>exhaustion_calls s\<close> counts the calls of
  \<^verbatim>\<open>onMaxRetriesExceeded\<close> made so far.

  A mounted hook with a connection attempt in flight and nothing else (\<open>attempting\<close>): no
  timer, the newest socket is connecting and is the one \<^verbatim>\<open>wsRef\<close> names, every older
  socket is closed.
\<close>

fun failing :: "'n event \<Rightarrow> bool" where
  "failing (ws_open_event i) = False"
| "failing e = automatic e"

fun is_close :: "'n event \<Rightarrow> bool" where
  "is_close (ws_close_event i) = True"
| "is_close e = False"

definition closes :: "'n event list \<Rightarrow> nat" where
  "closes es = length (filter is_close es)"

definition exhaustion_calls :: "'n hook \<Rightarrow> nat" where
  "exhaustion_calls s = count_list (effects s) onMaxRetriesExceeded_called"

definition attempting :: "'n hook \<Rightarrow> bool" where
  "attempting s \<longleftrightarrow>
     isMountedRef s \<and> timers s = []
     \<and> heartbeatIntervalRef s = None \<and> heartbeatTimeoutRef s = None
     \<and> sockets s \<noteq> [] \<and> list_all (\<lambda>r. r = CLOSED) (butlast (sockets s))
     \<and> last (sockets s) = CONNECTING
     \<and> wsRef s = Some (length (sockets s) - 1)"

text \<open>
  Concrete failing runs. \<open>attempt_fails i\<close>: socket \<open>i\<close> reports an error and closes.
  \<open>retry_fails i\<close>: reconnect timer \<open>i\<close> fires and the socket it creates (socket \<open>i\<close>, as
  timer and socket numbers advance together in these runs) fails.
  \<open>cold_start_failures n\<close>: the hook is mounted and its first \<open>n\<close> connection attempts
  fail. \<open>strict_mode_failures\<close>: the effect runs, is cleaned up and runs again (as React's
  strict mode does in development); the socket the cleanup abandoned and the second socket
  both close, then the reconnect timers fire one after the other and the socket each of
  them creates closes.
\<close>

definition attempt_fails :: "nat \<Rightarrow> int event list" where
  "attempt_fails i = [ws_error_event i, ws_close_event i]"

definition retry_fails :: "nat \<Rightarrow> int event list" where
  "retry_fails i = timer_event i 0 # attempt_fails i"

definition cold_start_failures :: "nat \<Rightarrow> int event list" where
  "cold_start_failures n = run_effect # attempt_fails 0 @ concat (map retry_fails [1..<n])"

definition strict_mode_failures :: "int event list" where
  "strict_mode_failures =
     [run_effect, run_cleanup, run_effect, ws_close_event 0, ws_close_event 1]
     @ concat (map (\<lambda>k. [timer_event k 0, ws_close_event (Suc k)]) [1..<11])"

subsection \<open>The connection of the specification\<close>











text \<open>
  States of runs, used in the examples: after the effect has run (first socket
  connecting); after that socket has opened and the first heartbeat has been sent (pong
  awaited); after the first socket has failed instead (first reconnect scheduled); after
  the hook was unmounted in that state; after the first ten connection attempts of a
  mounted hook have failed; after ten reconnect attempts have failed; and after a reset
  during the first attempt, followed by the close of the abandoned socket and of the new
  one.
\<close>

definition connecting_hook :: "int hook" where
  "connecting_hook =
     \<lparr>sockets = [CONNECTING], timers = [], next_timer = 1, wsRef = Some 0,
      reconnectTimeoutRef = None, heartbeatIntervalRef = None, heartbeatTimeoutRef = None,
      reconnectAttemptsRef = 0, isConnected = False, reconnectAttempts = 0,
      isMountedRef = True, effects = []\<rparr>"

definition connected_hook :: "int hook" where
  "connected_hook =
     \<lparr>sockets = [OPEN],
      timers = [(1, interval_heartbeat 25000), (2, timeout_pong 10000)], next_timer = 3,
      wsRef = Some 0, reconnectTimeoutRef = None, heartbeatIntervalRef = Some 1,
      heartbeatTimeoutRef = Some 2, reconnectAttemptsRef = 0, isConnected = True,
      reconnectAttempts = 0, isMountedRef = True,
      effects = [onConnect_called, ws_sent 0 (ping 1700000000000)]\<rparr>"

definition backoff_hook :: "int hook" where
  "backoff_hook =
     \<lparr>sockets = [CLOSED], timers = [(1, timeout_connect 1000)], next_timer = 2,
      wsRef = Some 0, reconnectTimeoutRef = Some 1, heartbeatIntervalRef = None,
      heartbeatTimeoutRef = None, reconnectAttemptsRef = 1, isConnected = False,
      reconnectAttempts = 1, isMountedRef = True,
      effects = [onError_called, onDisconnect_called]\<rparr>"

definition torn_down_hook :: "int hook" where
  "torn_down_hook =
     \<lparr>sockets = [CLOSED], timers = [], next_timer = 2, wsRef = None,
      reconnectTimeoutRef = None, heartbeatIntervalRef = None, heartbeatTimeoutRef = None,
      reconnectAttemptsRef = 1, isConnected = False, reconnectAttempts = 1,
      isMountedRef = False, effects = [onError_called, onDisconnect_called]\<rparr>"

definition ten_failures_hook :: "int hook" where
  "ten_failures_hook =
     \<lparr>sockets = [CLOSED, CLOSED, CLOSED, CLOSED, CLOSED,
                CLOSED, CLOSED, CLOSED, CLOSED, CLOSED],
      timers = [(10, timeout_connect 30000)], next_timer = 11,
      wsRef = Some 9, reconnectTimeoutRef = Some 10, heartbeatIntervalRef = None,
      heartbeatTimeoutRef = None, reconnectAttemptsRef = 10, isConnected = False,
      reconnectAttempts = 10, isMountedRef = True,
      effects =
        [onError_called, onDisconnect_called, onError_called, onDisconnect_called,
         onError_called, onDisconnect_called, onError_called, onDisconnect_called,
         onError_called, onDisconnect_called, onError_called, onDisconnect_called,
         onError_called, onDisconnect_called, onError_called, onDisconnect_called,
         onError_called, onDisconnect_called, onError_called, onDisconnect_called]\<rparr>"

definition exhausted_hook :: "int hook" where
  "exhausted_hook =
     \<lparr>sockets = [CLOSED, CLOSED, CLOSED, CLOSED, CLOSED, CLOSED,
                CLOSED, CLOSED, CLOSED, CLOSED, CLOSED],
      timers = [], next_timer = 11,
      wsRef = Some 10, reconnectTimeoutRef = Some 10, heartbeatIntervalRef = None,
      heartbeatTimeoutRef = None, reconnectAttemptsRef = 10, isConnected = False,
      reconnectAttempts = 10, isMountedRef = True,
      effects =
        [onError_called, onDisconnect_called, onError_called, onDisconnect_called,
         onError_called, onDisconnect_called, onError_called, onDisconnect_called,
         onError_called, onDisconnect_called, onError_called, onDisconnect_called,
         onError_called, onDisconnect_called, onError_called, onDisconnect_called,
         onError_called, onDisconnect_called, onError_called, onDisconnect_called,
         onError_called, onDisconnect_called, onMaxRetriesExceeded_called]\<rparr>"

definition leaked_timer_hook :: "int hook" where
  "leaked_timer_hook =
     \<lparr>sockets = [CLOSED, CLOSED],
      timers = [(1, timeout_connect 1000), (2, timeout_connect 2000)], next_timer = 3,
      wsRef = Some 1, reconnectTimeoutRef = Some 2, heartbeatIntervalRef = None,
      heartbeatTimeoutRef = None, reconnectAttemptsRef = 2, isConnected = False,
      reconnectAttempts = 2, isMountedRef = True,
      effects = [onDisconnect_called, onDisconnect_called]\<rparr>"

section \<open>Properties of the stream reducer\<close>

subsection \<open>Spreading, slicing and appending\<close>



lemma slice_last_slice_last_append:
  "slice_last n (slice_last n xs @ ys) = slice_last n (xs @ ys)"
proof (cases "length xs \<le> n")
  case True
  then show ?thesis by (simp add: slice_last_def)
next
  case False
  then have "length xs + length ys - (length xs - n + n) + (length xs - n)
               = length xs + length ys - n" by simp
  with False show ?thesis by (simp add: slice_last_def)
qed

lemma length_slice_last: "length (slice_last n xs) = min n (length xs)"
  by (simp add: slice_last_def)

lemma sorted_wrt_slice_last: "sorted_wrt R xs \<Longrightarrow> sorted_wrt R (slice_last n xs)"
  by (simp add: slice_last_def sorted_wrt_drop)

lemma map_slice_last: "map f (slice_last n xs) = slice_last n (map f xs)"
  by (simp add: slice_last_def drop_map)

lemma last_slice_last: "0 < n \<Longrightarrow> xs \<noteq> [] \<Longrightarrow> last (slice_last n xs) = last xs"
  by (simp add: slice_last_def)

lemma slice_last_eq_Nil: "0 < n \<Longrightarrow> slice_last n xs = [] \<longleftrightarrow> xs = []"
  by (cases xs) (auto simp: slice_last_def)

lemma slice_last_append_long:
  "n \<le> length ys \<Longrightarrow> slice_last n (xs @ ys) = slice_last n ys"
  by (simp add: slice_last_def)

lemma series_of_Some: "u k = Some xs \<Longrightarrow> series_of u k = xs"
  by (simp add: series_of_def)

lemma append_point_throws:
  "append_point (k, p) u = Inl err \<longleftrightarrow> u k = None \<and> inherited_member k"
  by (cases err) (simp add: append_point_def get_or_empty_def Let_def split: option.splits)

lemma append_point_applies:
  "u k \<noteq> None \<or> \<not> inherited_member k \<Longrightarrow> \<exists>u'. append_point (k, p) u = Inr u'"
  by (cases "append_point (k, p) u") (auto simp: append_point_throws)

lemma append_point_same:
  "append_point (k, p) u = Inr u' \<Longrightarrow> u' k = Some (push_point p (series_of u k))"
  by (auto simp: append_point_def get_or_empty_def push_point_def series_of_def Let_def
      split: option.splits if_splits)

lemma append_point_other:
  "append_point (k, p) u = Inr u' \<Longrightarrow> k' \<noteq> k \<Longrightarrow> u' k' = u k'"
  by (auto simp: append_point_def get_or_empty_def Let_def split: option.splits if_splits)

lemma append_points_notin:
  "append_points tp u = Inr u' \<Longrightarrow> k \<notin> fst ` set tp \<Longrightarrow> u' k = u k"
proof (induction tp arbitrary: u)
  case Nil
  then show ?case by simp
next
  case (Cons e tp)
  obtain k' p' where e: "e = (k', p')" by (cases e)
  from Cons.prems(1) obtain u1 where u1: "append_point e u = Inr u1" "append_points tp u1 = Inr u'"
    by (auto split: sum.splits)
  from Cons.prems(2) e have "k \<noteq> k'" "k \<notin> fst ` set tp" by auto
  with Cons.IH [OF u1(2)] append_point_other [of k' p' u u1 k] u1(1) e show ?case by simp
qed

lemma append_points_in:
  "append_points tp u = Inr u' \<Longrightarrow> distinct (map fst tp) \<Longrightarrow> (k, p) \<in> set tp \<Longrightarrow>
     u' k = Some (push_point p (series_of u k))"
proof (induction tp arbitrary: u)
  case Nil
  then show ?case by simp
next
  case (Cons e tp)
  obtain k' p' where e: "e = (k', p')" by (cases e)
  from Cons.prems(1) obtain u1 where u1: "append_point e u = Inr u1" "append_points tp u1 = Inr u'"
    by (auto split: sum.splits)
  show ?case
  proof (cases "(k, p) \<in> set tp")
    case True
    with Cons.prems(2) e have "k \<noteq> k'" by force
    with u1(1) e have "u1 k = u k" by (auto dest: append_point_other)
    then have "series_of u1 k = series_of u k" by (simp add: series_of_def)
    with Cons.IH [OF u1(2) _ True] Cons.prems(2) show ?thesis by simp
  next
    case False
    with Cons.prems e have kv: "e = (k, p)" and notin: "k \<notin> fst ` set tp" by auto
    from u1(1) kv have "u1 k = Some (push_point p (series_of u k))"
      by (auto dest: append_point_same)
    with append_points_notin [OF u1(2) notin] show ?thesis by simp
  qed
qed

lemma push_point_last:
  "push_point p xs \<noteq> [] \<and> timestamp (last (push_point p xs)) = timestamp p"
  by (simp add: push_point_def last_slice_last slice_last_eq_Nil MAX_TIMESERIES_POINTS_def)

lemma push_point_same_timestamp:
  "xs \<noteq> [] \<Longrightarrow> timestamp (last xs) = timestamp q \<Longrightarrow> push_point q xs = xs"
  by (simp add: push_point_def)

lemma sorted_wrt_less_le_last:
  fixes zs :: "'a::linorder list"
  shows "sorted_wrt (<) zs \<Longrightarrow> x \<in> set zs \<Longrightarrow> x \<le> last zs"
  by (induction zs) (auto simp: less_imp_le)

lemma series_ok_push_point:
  assumes ok: "series_ok xs" and ord: "xs = [] \<or> timestamp (last xs) \<le> timestamp p"
  shows "series_ok (push_point p xs)"
proof (cases "xs = [] \<or> timestamp (last xs) \<noteq> timestamp p")
  case False
  with ok show ?thesis by (simp add: push_point_def)
next
  case True
  have below: "t < timestamp p" if "t \<in> set (map timestamp xs)" for t
  proof -
    from that have ne: "xs \<noteq> []" by auto
    with True ord have "timestamp (last xs) < timestamp p" by auto
    moreover from ok that have "t \<le> last (map timestamp xs)"
      by (intro sorted_wrt_less_le_last) (simp_all add: series_ok_def)
    ultimately show ?thesis using ne by (simp add: last_map)
  qed
  from ok below have "sorted_wrt (<) (map timestamp (xs @ [p]))"
    by (auto simp: series_ok_def sorted_wrt_append)
  then have "sorted_wrt (<) (map timestamp (slice_last MAX_TIMESERIES_POINTS (xs @ [p])))"
    unfolding map_slice_last by (rule sorted_wrt_slice_last)
  with True show ?thesis
    by (simp add: push_point_def series_ok_def length_slice_last)
qed

lemma tables_ok_append_point:
  assumes "\<forall>xs \<in> ran u. series_ok xs" and "point_in_order e u" and "append_point e u = Inr u'"
  shows "\<forall>xs \<in> ran u'. series_ok xs"
proof -
  obtain k p where e: "e = (k, p)" by (cases e)
  have "series_ok ys" if "u' k' = Some ys" for k' ys
  proof (cases "k' = k")
    case True
    from assms(1) have "series_ok (series_of u k)"
      by (auto simp: series_of_def ran_def series_ok_def split: option.splits)
    moreover from assms(2) e
    have "series_of u k = [] \<or> timestamp (last (series_of u k)) \<le> timestamp p"
      by (auto simp: point_in_order_def series_of_def split: option.splits)
    ultimately have "series_ok (push_point p (series_of u k))" by (rule series_ok_push_point)
    with that True e assms(3) show ?thesis by (auto dest: append_point_same)
  next
    case False
    with that e assms(3) have "u k' = Some ys" by (auto dest: append_point_other)
    with assms(1) show ?thesis by (auto simp: ran_def)
  qed
  then show ?thesis by (auto simp: ran_def)
qed

lemma tables_ok_append_points:
  "\<forall>xs \<in> ran u. series_ok xs \<Longrightarrow> points_in_order tp u \<Longrightarrow> append_points tp u = Inr u' \<Longrightarrow>
     \<forall>xs \<in> ran u'. series_ok xs"
proof (induction tp arbitrary: u)
  case Nil
  then show ?case by simp
next
  case (Cons e tp)
  from Cons.prems(3) obtain u1 where u1: "append_point e u = Inr u1" "append_points tp u1 = Inr u'"
    by (auto split: sum.splits)
  from Cons.prems(1,2) u1(1) have "\<forall>xs \<in> ran u1. series_ok xs"
    by (intro tables_ok_append_point [of u e u1]) simp_all
  moreover from Cons.prems(2) u1(1) have "points_in_order tp u1" by simp
  ultimately show ?case using u1(2) by (rule Cons.IH)
qed

lemma series_inv_step:
  assumes "series_inv s" and "message_in_order m s" and "handleWebSocketMessage m s = Inr s'"
  shows "series_inv s'"
proof (cases m)
  case (full_update sm rt tpo)
  show ?thesis
  proof (cases tpo)
    case None
    with full_update assms(1,3) show ?thesis
      by (auto simp: series_inv_def Let_def split: option.splits)
  next
    case (Some tp)
    with full_update assms(3) obtain u' where
      u': "append_points tp (timeseriesData s) = Inr u'" and ts: "timeseriesData s' = u'"
      by (auto simp: Let_def split: option.splits sum.splits)
    from assms(1,2) full_update Some u' have "\<forall>xs \<in> ran u'. series_ok xs"
      by (intro tables_ok_append_points [of "timeseriesData s" tp u']) (simp_all add: series_inv_def)
    with ts show ?thesis by (simp add: series_inv_def)
  qed
next
  case (initial_timeseries k d)
  with assms show ?thesis
    by (fastforce simp: series_inv_def ran_def split: if_splits)
next
  case (pong t st)
  with assms show ?thesis by simp
qed

lemma series_inv_stream:
  "series_inv s \<Longrightarrow> stream_in_order ms s \<Longrightarrow> apply_messages ms s = Inr s' \<Longrightarrow> series_inv s'"
proof (induction ms arbitrary: s)
  case Nil
  then show ?case by simp
next
  case (Cons m ms)
  from Cons.prems(3) obtain s1 where s1: "handleWebSocketMessage m s = Inr s1"
    "apply_messages ms s1 = Inr s'"
    by (auto split: sum.splits)
  from Cons.prems(1,2) s1(1) have "series_inv s1" by (intro series_inv_step [of s m s1]) simp_all
  moreover from Cons.prems(2) s1(1) have "stream_in_order ms s1" by simp
  ultimately show ?case using s1(2) by (rule Cons.IH)
qed

lemma series_inv_initial: "series_inv initial_dashboard"
  by (simp add: series_inv_def initial_dashboard_def)

lemma stream_in_order_take: "stream_in_order ms s \<Longrightarrow> stream_in_order (take n ms) s"
proof (induction ms arbitrary: n s)
  case Nil
  then show ?case by simp
next
  case (Cons m ms)
  then show ?case by (cases n) (auto split: sum.splits)
qed

subsection \<open>Messages that carry a point for a meter\<close>

lemma handle_carries:
  assumes "carries dev p m" and "handleWebSocketMessage m s = Inr s'"
  shows "timeseriesData s' dev = Some (push_point p (series_of (timeseriesData s) dev))"
  using assms
proof (induction dev p m rule: carries.induct)
  case (1 dev p sm rt tp)
  from "1.prems"(2) obtain u' where
    u': "append_points tp (timeseriesData s) = Inr u'" and ts: "timeseriesData s' = u'"
    by (auto simp: Let_def split: option.splits sum.splits)
  from "1.prems"(1) have "distinct (map fst tp)" "(dev, p) \<in> set tp" by simp_all
  with u' have "u' dev = Some (push_point p (series_of (timeseriesData s) dev))"
    by (intro append_points_in)
  with ts show ?case by simp
qed simp_all

lemma apply_carries:
  "list_all2 (carries dev) ps ms \<Longrightarrow> apply_messages ms s = Inr s' \<Longrightarrow>
     series_of (timeseriesData s') dev = fold push_point ps (series_of (timeseriesData s) dev)"
proof (induction ps ms arbitrary: s rule: list_all2_induct)
  case Nil
  then show ?case by simp
next
  case (Cons p ps m ms)
  from Cons.prems obtain s1 where s1: "handleWebSocketMessage m s = Inr s1"
    "apply_messages ms s1 = Inr s'"
    by (auto split: sum.splits)
  from handle_carries [OF Cons.hyps(1) s1(1)]
  have "series_of (timeseriesData s1) dev = push_point p (series_of (timeseriesData s) dev)"
    by (simp add: series_of_Some)
  with Cons.IH [OF s1(2)] show ?case by simp
qed

lemma apply_carries_defined:
  "list_all2 (carries dev) ps ms \<Longrightarrow> apply_messages ms s = Inr s' \<Longrightarrow> ps \<noteq> [] \<Longrightarrow>
     timeseriesData s' dev \<noteq> None"
proof (induction ps ms arbitrary: s rule: list_all2_induct)
  case Nil
  then show ?case by simp
next
  case (Cons p ps m ms)
  from Cons.prems(1) obtain s1 where s1: "handleWebSocketMessage m s = Inr s1"
    "apply_messages ms s1 = Inr s'"
    by (auto split: sum.splits)
  show ?case
  proof (cases "ps = []")
    case True
    with Cons.hyps have "ms = []" by simp
    with s1 handle_carries [OF Cons.hyps(1) s1(1)] show ?thesis by simp
  next
    case False
    with Cons.IH [OF s1(2)] show ?thesis by simp
  qed
qed

lemma handle_point_update:
  assumes "timeseriesData s dev \<noteq> None \<or> \<not> inherited_member dev"
  shows "\<exists>s'. handleWebSocketMessage (point_update dev p) s = Inr s'
            \<and> timeseriesData s' dev \<noteq> None"
proof -
  from append_point_applies [of "timeseriesData s" dev p] assms obtain u' where
    u': "append_point (dev, p) (timeseriesData s) = Inr u'" by blast
  then have "u' dev \<noteq> None" by (auto dest: append_point_same)
  with u' show ?thesis by (simp add: point_update_def)
qed

lemma apply_point_updates:
  "timeseriesData s dev \<noteq> None \<or> \<not> inherited_member dev \<Longrightarrow>
     \<exists>s'. apply_messages (map (point_update dev) ps) s = Inr s'"
proof (induction ps arbitrary: s)
  case Nil
  then show ?case by simp
next
  case (Cons p ps)
  from handle_point_update [OF Cons.prems, of p] obtain s1 where
    s1: "handleWebSocketMessage (point_update dev p) s = Inr s1" "timeseriesData s1 dev \<noteq> None"
    by blast
  from s1(2) have "timeseriesData s1 dev \<noteq> None \<or> \<not> inherited_member dev" by simp
  from Cons.IH [OF this] s1(1) show ?case by simp
qed

lemma carries_point_updates:
  "list_all2 (carries dev) ps (map (point_update dev) ps)"
  by (simp add: list_all2_map2 list_all2_same point_update_def)

lemma fold_push_point_fresh:
  "sorted_wrt (<) (map timestamp (p # ps)) \<Longrightarrow>
   xs = [] \<or> timestamp (last xs) \<noteq> timestamp p \<Longrightarrow>
     fold push_point (p # ps) xs = slice_last MAX_TIMESERIES_POINTS (xs @ p # ps)"
proof (induction ps arbitrary: p xs)
  case Nil
  then show ?case by (simp add: push_point_def)
next
  case (Cons q ps)
  let ?ys = "slice_last MAX_TIMESERIES_POINTS (xs @ [p])"
  from Cons.prems(2) have push: "push_point p xs = ?ys" by (simp add: push_point_def)
  have "last ?ys = p"
    by (simp add: last_slice_last MAX_TIMESERIES_POINTS_def)
  moreover from Cons.prems(1) have "timestamp p \<noteq> timestamp q" by auto
  ultimately have fresh: "?ys = [] \<or> timestamp (last ?ys) \<noteq> timestamp q" by simp
  from Cons.prems(1) have "sorted_wrt (<) (map timestamp (q # ps))" by simp
  from Cons.IH [OF this fresh]
  have "fold push_point (q # ps) ?ys = slice_last MAX_TIMESERIES_POINTS (?ys @ q # ps)" .
  also have "\<dots> = slice_last MAX_TIMESERIES_POINTS ((xs @ [p]) @ q # ps)"
    by (rule slice_last_slice_last_append)
  finally show ?case using push by simp
qed

lemma fold_push_point_long:
  assumes inc: "sorted_wrt (<) (map timestamp ps)"
    and long: "MAX_TIMESERIES_POINTS < length ps"
  shows "fold push_point ps xs = slice_last MAX_TIMESERIES_POINTS ps"
proof -
  from long obtain p q qs where ps: "ps = p # q # qs"
    by (cases ps; cases "tl ps") (auto simp: MAX_TIMESERIES_POINTS_def)
  let ?ys = "push_point p xs"
  from inc ps have "timestamp p \<noteq> timestamp q" by auto
  with push_point_last [of p xs]
  have fresh: "?ys = [] \<or> timestamp (last ?ys) \<noteq> timestamp q" by simp
  from inc ps have "sorted_wrt (<) (map timestamp (q # qs))" by simp
  from fold_push_point_fresh [OF this fresh]
  have "fold push_point (q # qs) ?ys = slice_last MAX_TIMESERIES_POINTS (?ys @ q # qs)" .
  also from long ps have "\<dots> = slice_last MAX_TIMESERIES_POINTS (q # qs)"
    by (intro slice_last_append_long) simp
  also from long ps have "\<dots> = slice_last MAX_TIMESERIES_POINTS ([p] @ q # qs)"
    by (intro slice_last_append_long [symmetric]) simp
  finally show ?thesis using ps by simp
qed

lemma replicate_less_mono:
  fixes c :: char
  shows "m < n \<Longrightarrow> replicate m c < replicate n c"
proof (induction m arbitrary: n)
  case 0
  then show ?case by (cases n) simp_all
next
  case (Suc m)
  then show ?case by (cases n) simp_all
qed

lemma stamps_increasing:
  "sorted_wrt (<) (map timestamp (map (\<lambda>i. point_at (stamp i)) [0..<n]))"
proof -
  have "sorted_wrt (\<lambda>i j. stamp i < stamp j) [0..<n]"
    by (rule sorted_wrt_mono_rel [OF _ sorted_wrt_upt])
       (simp add: stamp_def replicate_less_mono del: replicate_Suc)
  then show ?thesis
    by (simp add: sorted_wrt_map point_at_def comp_def)
qed

lemma series_cap_applied:
  assumes "list_all2 (carries dev) ps ms"
    and "sorted_wrt (<) (map timestamp ps)"
    and "length ps = 500"
    and "apply_messages ms s = Inr s'"
  shows "timeseriesData s' dev = Some (drop 50 ps)"
proof -
  from assms(3) have long: "MAX_TIMESERIES_POINTS < length ps"
    by (simp add: MAX_TIMESERIES_POINTS_def)
  from assms(3) have ne: "ps \<noteq> []" by auto
  have "series_of (timeseriesData s') dev
          = fold push_point ps (series_of (timeseriesData s) dev)"
    using assms(1,4) by (rule apply_carries)
  also have "\<dots> = slice_last MAX_TIMESERIES_POINTS ps"
    using assms(2) long by (rule fold_push_point_long)
  also from assms(3) have "\<dots> = drop 50 ps"
    by (simp add: slice_last_def MAX_TIMESERIES_POINTS_def)
  finally have "series_of (timeseriesData s') dev = drop 50 ps" .
  moreover from apply_carries_defined [OF assms(1,4) ne]
  obtain xs where "timeseriesData s' dev = Some xs" by blast
  ultimately show ?thesis by (simp add: series_of_def)
qed

subsection \<open>Messages whose update throws\<close>

lemma append_points_throws:
  "u k = None \<Longrightarrow> inherited_member k \<Longrightarrow> k \<in> fst ` set tp \<Longrightarrow>
     append_points tp u = Inl TypeError"
proof (induction tp arbitrary: u)
  case Nil
  then show ?case by simp
next
  case (Cons e tp)
  obtain k' p' where e: "e = (k', p')" by (cases e)
  show ?case
  proof (cases "append_point e u")
    case (Inl err)
    then show ?thesis by (cases err) simp
  next
    case (Inr u1)
    have ne: "k \<noteq> k'"
    proof
      assume "k = k'"
      with Cons.prems(1,2) have "append_point (k', p') u = Inl TypeError"
        by (simp add: append_point_throws)
      with Inr e show False by simp
    qed
    with Cons.prems(3) e have "k \<in> fst ` set tp" by auto
    moreover from append_point_other [of k' p' u u1 k] Inr e ne Cons.prems(1)
    have "u1 k = None" by simp
    ultimately have "append_points tp u1 = Inl TypeError"
      using Cons.prems(2) by (intro Cons.IH)
    with Inr show ?thesis by simp
  qed
qed

lemma handle_carries_throws:
  assumes "carries dev p m" and "timeseriesData s dev = None" and "inherited_member dev"
  shows "handleWebSocketMessage m s = Inl TypeError"
  using assms
proof (induction dev p m rule: carries.induct)
  case (1 dev p sm rt tp)
  from "1.prems"(1) have "dev \<in> fst ` set tp" by force
  with "1.prems"(2,3) have "append_points tp (timeseriesData s) = Inl TypeError"
    by (intro append_points_throws)
  then show ?case by (simp add: Let_def split: option.splits)
qed simp_all

lemma apply_carries_throws:
  assumes "list_all2 (carries dev) ps ms" and "ps \<noteq> []"
    and "timeseriesData s dev = None" and "inherited_member dev"
  shows "apply_messages ms s = Inl TypeError"
proof -
  from assms(1,2) obtain p ps' m ms' where "ps = p # ps'" "ms = m # ms'" "carries dev p m"
    by (cases ps; cases ms) auto
  with handle_carries_throws [OF this(3) assms(3,4)] show ?thesis by simp
qed


subsection \<open>The claims about the reducer\<close>

text \<open>The definitions unfolded to evaluate the handler on concrete messages.\<close>

lemmas reducer_eval =
  point_update_def initial_dashboard_def append_point_def get_or_empty_def inherited_member_def
  Object_prototype_members_def slice_last_def MAX_TIMESERIES_POINTS_def

text \<open>
  Claim C1 states that in every reachable state every series has strictly increasing
  timestamps and at most 450 points. The handler compares a new point with the last stored
  point by \<^verbatim>\<open>!==\<close> only, and \<open>initial_timeseries\<close> stores the received array as it
  is. Two points arriving in the order "2", "1" are both stored, and an
  \<open>initial_timeseries\<close> array in that order is stored unchanged: the state reached from the
  empty tables holds a series that is not increasing.
\<close>

theorem series_invariant_counterexample:
  "apply_messages [point_update ''A'' (point_at ''2''), point_update ''A'' (point_at ''1'')]
     initial_dashboard
     = Inr (initial_dashboard
         \<lparr>timeseriesData := [''A'' \<mapsto> [point_at ''2'', point_at ''1'']], loading := False\<rparr>)
   \<and> \<not> series_ok [point_at ''2'', point_at ''1'']
   \<and> apply_messages [initial_timeseries ''A'' [point_at ''2'', point_at ''1'']] initial_dashboard
     = Inr (initial_dashboard
         \<lparr>timeseriesData := [''A'' \<mapsto> [point_at ''2'', point_at ''1'']]\<rparr>)"
  by (simp add: reducer_eval series_ok_def point_at_def)

text \<open>
  Claim C1, amended: for every stream of messages that arrives in time order (each
  time-series point is not older than the last point stored for its meter, each
  \<open>initial_timeseries\<close> array has strictly increasing timestamps and at most 450 points),
  the state reached from the empty tables has only series with strictly increasing
  timestamps and length at most 450; and each single message that is in order, in a state
  that satisfies the invariant, preserves the invariant (both the \<^verbatim>\<open>timeseries_point\<close>
  branch of \<open>full_update\<close> and the \<open>initial_timeseries\<close> replacement). The states are
  those the handler produces: a message whose update throws produces none, and the states
  reached before such a message (after any number \<open>n\<close> of messages of the stream) satisfy
  the invariant too.
\<close>

theorem series_invariant_in_order:
  "(stream_in_order ms initial_dashboard \<and> apply_messages ms initial_dashboard = Inr s'
      \<longrightarrow> series_inv s')
   \<and> (series_inv s \<and> message_in_order m s \<and> handleWebSocketMessage m s = Inr t
      \<longrightarrow> series_inv t)
   \<and> (stream_in_order ms initial_dashboard
        \<and> apply_messages (take n ms) initial_dashboard = Inr u
      \<longrightarrow> series_inv u)"
proof -
  have "series_inv u"
    if "stream_in_order ms initial_dashboard"
      "apply_messages (take n ms) initial_dashboard = Inr u"
    using series_inv_initial stream_in_order_take [OF that(1)] that(2)
    by (rule series_inv_stream)
  with series_inv_stream [OF series_inv_initial] series_inv_step show ?thesis by blast
qed

text \<open>An in-order stream with a re-delivered point and an initial series.\<close>

theorem series_invariant_in_order_witness:
  "stream_in_order
     [point_update ''A'' (point_at ''1''), point_update ''A'' (point_at ''2''),
      point_update ''A'' (point_at ''2''),
      initial_timeseries ''B'' [point_at ''1'', point_at ''3'']] initial_dashboard
   \<and> apply_messages
     [point_update ''A'' (point_at ''1''), point_update ''A'' (point_at ''2''),
      point_update ''A'' (point_at ''2''),
      initial_timeseries ''B'' [point_at ''1'', point_at ''3'']] initial_dashboard
     = Inr (initial_dashboard
         \<lparr>timeseriesData := [''A'' \<mapsto> [point_at ''1'', point_at ''2''],
                            ''B'' \<mapsto> [point_at ''1'', point_at ''3'']], loading := False\<rparr>)
   \<and> series_inv (initial_dashboard
         \<lparr>timeseriesData := [''A'' \<mapsto> [point_at ''1'', point_at ''2''],
                            ''B'' \<mapsto> [point_at ''1'', point_at ''3'']], loading := False\<rparr>)
   \<and> series_inv (initial_dashboard :: int dashboard)
   \<and> message_in_order (point_update ''A'' (point_at ''1'')) initial_dashboard
   \<and> handleWebSocketMessage (point_update ''A'' (point_at ''1'')) initial_dashboard
     = Inr (initial_dashboard
         \<lparr>timeseriesData := [''A'' \<mapsto> [point_at ''1'']], loading := False\<rparr>)
   \<and> apply_messages
     (take 1 [point_update ''A'' (point_at ''1''), point_update ''A'' (point_at ''2''),
      point_update ''A'' (point_at ''2''),
      initial_timeseries ''B'' [point_at ''1'', point_at ''3'']]) initial_dashboard
     = Inr (initial_dashboard
         \<lparr>timeseriesData := [''A'' \<mapsto> [point_at ''1'']], loading := False\<rparr>)
   \<and> series_inv (initial_dashboard
         \<lparr>timeseriesData := [''A'' \<mapsto> [point_at ''1'']], loading := False\<rparr>)"
proof -
  let ?ms = "[point_update ''A'' (point_at ''1''), point_update ''A'' (point_at ''2''),
      point_update ''A'' (point_at ''2''),
      initial_timeseries ''B'' [point_at ''1'', point_at ''3'']]"
  let ?r = "initial_dashboard
         \<lparr>timeseriesData := [''A'' \<mapsto> [point_at ''1'', point_at ''2''],
                            ''B'' \<mapsto> [point_at ''1'', point_at ''3'']], loading := False\<rparr>"
  let ?r1 = "initial_dashboard
         \<lparr>timeseriesData := [''A'' \<mapsto> [point_at ''1'']], loading := False\<rparr>"
  have a: "stream_in_order ?ms initial_dashboard"
    by (simp add: reducer_eval series_ok_def point_at_def point_in_order_def)
  have r: "apply_messages ?ms initial_dashboard = Inr ?r"
    by (simp add: reducer_eval point_at_def fun_eq_iff)
  have b: "series_inv (initial_dashboard :: int dashboard)"
    by (simp add: series_inv_def initial_dashboard_def)
  have c: "message_in_order (point_update ''A'' (point_at ''1'')) initial_dashboard"
    by (simp add: reducer_eval point_in_order_def)
  have r1: "handleWebSocketMessage (point_update ''A'' (point_at ''1'')) initial_dashboard = Inr ?r1"
    by (simp add: reducer_eval)
  have r2: "apply_messages (take 1 ?ms) initial_dashboard = Inr ?r1"
    by (simp add: reducer_eval)
  note T = series_invariant_in_order [where ms = ?ms and s' = ?r and s = initial_dashboard
      and m = "point_update ''A'' (point_at ''1'')" and t = ?r1 and n = 1 and u = ?r1]
  from T a r have 1: "series_inv ?r" by blast
  from T a r2 have 2: "series_inv ?r1" by blast
  from a r b c r1 r2 1 2 show ?thesis by blast
qed



text \<open>
  Claim C6 says that, for every device series without a point of timestamp \<open>T\<close>, two
  consecutive messages carrying the same point leave a series of length 1. The length is 1
  only when the series was empty: with one older point stored, the two messages leave two
  points, the older one and one copy of the new one.
\<close>

theorem series_dedup_counterexample:
  "apply_messages [point_update ''A'' (point_at ''1'')] initial_dashboard
     = Inr (initial_dashboard
         \<lparr>timeseriesData := [''A'' \<mapsto> [point_at ''1'']], loading := False\<rparr>)
   \<and> apply_messages [point_update ''A'' (point_at ''2''), point_update ''A'' (point_at ''2'')]
       (initial_dashboard
         \<lparr>timeseriesData := [''A'' \<mapsto> [point_at ''1'']], loading := False\<rparr>)
     = Inr (initial_dashboard
         \<lparr>timeseriesData := [''A'' \<mapsto> [point_at ''1'', point_at ''2'']], loading := False\<rparr>)
   \<and> length [point_at ''1'', point_at ''2''] \<noteq> 1"
  by (simp add: reducer_eval point_at_def)

text \<open>
  Claim C6, amended: for every state, meter and timestamp \<open>T\<close> such that no stored point
  of the meter has timestamp \<open>T\<close>, two consecutive \<open>full_update\<close> messages that the
  handler applies, carrying for the meter points \<open>p\<close> and \<open>p'\<close> of timestamp \<open>T\<close> (the
  same point, or two points that differ in their readings), append one point, not two: the
  series is the prior series followed by \<open>p\<close>, cut to its last 450 points; the second
  message leaves the series as the first one made it; and when the meter had no stored point
  the series is \<open>[p]\<close>, of length 1. In general a point whose timestamp equals that of
  the last stored point of its meter is dropped: the message that carries it leaves the
  series unchanged. The two messages that carry nothing but these points are applied
  whenever the meter has a stored series or its name is not that of a member of
  \<^verbatim>\<open>Object.prototype\<close>.
\<close>


theorem series_dedup:
  assumes "carries dev p m1" and "carries dev p' m2" and "timestamp p' = timestamp p"
    and "\<forall>q \<in> set (series_of (timeseriesData s) dev). timestamp q \<noteq> timestamp p"
    and "apply_messages [m1, m2] s = Inr s'"
  shows "timeseriesData s' dev
           = Some (slice_last MAX_TIMESERIES_POINTS (series_of (timeseriesData s) dev @ [p]))
       \<and> (\<exists>s1. handleWebSocketMessage m1 s = Inr s1
              \<and> timeseriesData s' dev = timeseriesData s1 dev)
       \<and> (series_of (timeseriesData s) dev = [] \<longrightarrow> timeseriesData s' dev = Some [p])
       \<and> (carries dev q m \<and> series_of (timeseriesData t) dev \<noteq> []
            \<and> timestamp (last (series_of (timeseriesData t) dev)) = timestamp q
            \<and> handleWebSocketMessage m t = Inr t'
          \<longrightarrow> series_of (timeseriesData t') dev = series_of (timeseriesData t) dev)
       \<and> (timeseriesData s dev \<noteq> None \<or> \<not> inherited_member dev \<longrightarrow>
            (\<exists>t. apply_messages [point_update dev p, point_update dev p'] s = Inr t))"
proof -
  let ?xs = "series_of (timeseriesData s) dev"
  from assms(5) obtain s1 where s1: "handleWebSocketMessage m1 s = Inr s1"
    and s2: "handleWebSocketMessage m2 s1 = Inr s'"
    by (auto split: sum.splits)
  from assms(4) have "?xs = [] \<or> timestamp (last ?xs) \<noteq> timestamp p"
    by (cases "?xs = []") simp_all
  then have first: "push_point p ?xs = slice_last MAX_TIMESERIES_POINTS (?xs @ [p])"
    by (simp add: push_point_def)
  from handle_carries [OF assms(1) s1]
  have one: "timeseriesData s1 dev = Some (push_point p ?xs)" .
  from push_point_last [of p ?xs] assms(3)
  have "push_point p' (push_point p ?xs) = push_point p ?xs"
    by (intro push_point_same_timestamp) simp_all
  with handle_carries [OF assms(2) s2] one
  have two: "timeseriesData s' dev = Some (push_point p ?xs)"
    by (simp add: series_of_def)
  have drop: "series_of (timeseriesData t') dev = series_of (timeseriesData t) dev"
    if "carries dev q m" "series_of (timeseriesData t) dev \<noteq> []"
      "timestamp (last (series_of (timeseriesData t) dev)) = timestamp q"
      "handleWebSocketMessage m t = Inr t'"
    using handle_carries [OF that(1,4)] push_point_same_timestamp [OF that(2,3)]
    by (simp add: series_of_def)
  have total: "\<exists>t. apply_messages [point_update dev p, point_update dev p'] s = Inr t"
    if "timeseriesData s dev \<noteq> None \<or> \<not> inherited_member dev"
    using apply_point_updates [OF that, of "[p, p']"] by simp
  from one two first s1 drop total show ?thesis
    by (auto simp: slice_last_def MAX_TIMESERIES_POINTS_def)
qed

text \<open>Two points of the same timestamp and different voltage, sent to a meter without
  stored points: the first one is kept.\<close>

theorem series_dedup_witness:
  "carries ''A'' (point_at ''2'') (point_update ''A'' (point_at ''2''))
   \<and> carries ''A'' ((point_at ''2'')\<lparr>voltage := 231\<rparr>)
       (point_update ''A'' ((point_at ''2'')\<lparr>voltage := 231\<rparr>))
   \<and> series_of (timeseriesData (initial_dashboard :: int dashboard)) ''A'' = []
   \<and> apply_messages [point_update ''A'' (point_at ''2''),
         point_update ''A'' ((point_at ''2'')\<lparr>voltage := 231\<rparr>)] initial_dashboard
     = Inr (initial_dashboard
         \<lparr>timeseriesData := [''A'' \<mapsto> [point_at ''2'']], loading := False\<rparr>)
   \<and> timeseriesData (initial_dashboard
         \<lparr>timeseriesData := [''A'' \<mapsto> [point_at ''2'']], loading := False\<rparr>) ''A''
     = Some [point_at ''2'']"
proof -
  let ?p = "point_at ''2''"
  let ?p' = "(point_at ''2'')\<lparr>voltage := 231\<rparr>"
  let ?r = "initial_dashboard\<lparr>timeseriesData := [''A'' \<mapsto> [?p]], loading := False\<rparr>"
  have c: "carries ''A'' ?p (point_update ''A'' ?p)" "carries ''A'' ?p' (point_update ''A'' ?p')"
    by (simp_all add: point_update_def)
  have t: "timestamp ?p' = timestamp ?p" by simp
  have e: "series_of (timeseriesData (initial_dashboard :: int dashboard)) ''A'' = []"
    by (simp add: series_of_def initial_dashboard_def)
  then have f: "\<forall>q \<in> set (series_of (timeseriesData (initial_dashboard :: int dashboard)) ''A'').
         timestamp q \<noteq> timestamp ?p" by simp
  have r: "apply_messages [point_update ''A'' ?p, point_update ''A'' ?p'] initial_dashboard = Inr ?r"
    by (simp add: reducer_eval point_at_def)
  from c e r series_dedup [OF c t f r] show ?thesis by blast
qed

text \<open>
  Claim C7: 500 points with strictly increasing timestamps, sent to one meter by 500
  \<open>full_update\<close> messages. From every prior state, when the handler applies the
  messages they leave a series of exactly 450 points: the last 450 of the 500, in the
  order they were sent; and the messages that carry nothing but these points are all
  applied when the meter has a stored series or its name is not that of a member of
  \<^verbatim>\<open>Object.prototype\<close>. For a meter named like such a member (\<^verbatim>\<open>constructor\<close>,
  \<^verbatim>\<open>toString\<close>, ...) that has no stored series, the first message throws a
  \<^verbatim>\<open>TypeError\<close> and no series is stored: \<^verbatim>\<open>updated[meterName] || []\<close> yields the
  inherited member, which \<^verbatim>\<open>[...existing, point]\<close> cannot iterate.
\<close>


theorem series_cap:
  assumes "list_all2 (carries dev) ps ms"
    and "sorted_wrt (<) (map timestamp ps)"
    and "length ps = 500"
  shows "(apply_messages ms s = Inr s' \<longrightarrow>
            timeseriesData s' dev = Some (drop 50 ps)
            \<and> length (drop 50 ps) = MAX_TIMESERIES_POINTS)
       \<and> (timeseriesData s dev \<noteq> None \<or> \<not> inherited_member dev \<longrightarrow>
            (\<exists>t. apply_messages (map (point_update dev) ps) s = Inr t
                \<and> timeseriesData t dev = Some (drop 50 ps)))
       \<and> (timeseriesData s dev = None \<and> inherited_member dev \<longrightarrow>
            apply_messages ms s = Inl TypeError)"
proof -
  have 1: "timeseriesData s' dev = Some (drop 50 ps)" if "apply_messages ms s = Inr s'"
    using assms that by (rule series_cap_applied)
  have 2: "\<exists>t. apply_messages (map (point_update dev) ps) s = Inr t
                \<and> timeseriesData t dev = Some (drop 50 ps)"
    if "timeseriesData s dev \<noteq> None \<or> \<not> inherited_member dev"
  proof -
    from apply_point_updates [OF that, of ps] obtain t where
      t: "apply_messages (map (point_update dev) ps) s = Inr t" by blast
    from carries_point_updates assms(2,3) t have "timeseriesData t dev = Some (drop 50 ps)"
      by (rule series_cap_applied)
    with t show ?thesis by blast
  qed
  from assms(3) have "ps \<noteq> []" by auto
  from apply_carries_throws [OF assms(1) this]
  have 3: "apply_messages ms s = Inl TypeError"
    if "timeseriesData s dev = None" "inherited_member dev"
    using that by blast
  from 1 2 3 assms(3) show ?thesis by (simp add: MAX_TIMESERIES_POINTS_def)
qed

text \<open>500 points with the timestamps \<open>stamp 0\<close>, ..., \<open>stamp 499\<close>, from the empty tables:
  sent to the meter \<^verbatim>\<open>A\<close>, and sent to a meter named \<^verbatim>\<open>constructor\<close>.\<close>

theorem series_cap_witness:
  "(\<exists>t. apply_messages (map (point_update ''A'') (map (\<lambda>i. point_at (stamp i)) [0..<500]))
          initial_dashboard = Inr t
       \<and> timeseriesData t ''A'' = Some (drop 50 (map (\<lambda>i. point_at (stamp i)) [0..<500])))
   \<and> length (drop 50 (map (\<lambda>i. point_at (stamp i)) [0..<500])) = 450
   \<and> \<not> inherited_member ''A''
   \<and> timeseriesData (initial_dashboard :: int dashboard) ''constructor'' = None
   \<and> inherited_member ''constructor''
   \<and> apply_messages (map (point_update ''constructor'') (map (\<lambda>i. point_at (stamp i)) [0..<500]))
        initial_dashboard = Inl TypeError"
proof -
  let ?ps = "map (\<lambda>i. point_at (stamp i)) [0..<500]"
  have c: "list_all2 (carries dev) ?ps (map (point_update dev) ?ps)" for dev
    by (rule carries_point_updates)
  have i: "sorted_wrt (<) (map timestamp ?ps)" by (rule stamps_increasing)
  have l: "length ?ps = 500" by simp
  have n: "\<not> inherited_member ''A''" "inherited_member ''constructor''"
    by (simp_all add: inherited_member_def Object_prototype_members_def)
  have e: "timeseriesData (initial_dashboard :: int dashboard) ''constructor'' = None"
    by (simp add: initial_dashboard_def)
  note T = series_cap [OF c i l, of "''A''" initial_dashboard]
  note U = series_cap [OF c i l, of "''constructor''" initial_dashboard]
  from T n(1) obtain t where t: "apply_messages (map (point_update ''A'') ?ps) initial_dashboard = Inr t"
    "timeseriesData t ''A'' = Some (drop 50 ?ps)" by blast
  from T t(1) have "length (drop 50 ?ps) = MAX_TIMESERIES_POINTS" by blast
  then have len: "length (drop 50 ?ps) = 450" by (simp add: MAX_TIMESERIES_POINTS_def)
  from U n(2) e
  have th: "apply_messages (map (point_update ''constructor'') ?ps) initial_dashboard
      = Inl TypeError" by blast
  from t len n e th show ?thesis by blast
qed

text \<open>
  Claim C8 says that every \<open>initial_timeseries\<close> message replaces the series of its meter.
  The handler guards the replacement with \<^verbatim>\<open>data.meter_name && data.data\<close>: a message
  whose meter name is the empty string is ignored.
\<close>

theorem initial_series_replace_counterexample:
  "handleWebSocketMessage (initial_timeseries '''' [point_at ''1'']) initial_dashboard
     = Inr initial_dashboard
   \<and> timeseriesData (initial_dashboard :: int dashboard) '''' \<noteq> Some [point_at ''1'']"
  by (simp add: initial_dashboard_def)

text \<open>
  Claim C8, amended: for every prior state and every \<open>initial_timeseries\<close> message for a
  meter \<open>A\<close> with a non-empty name, the message is applied and the series of \<open>A\<close>
  becomes exactly the array of the message (a series of 50 points and a message with 10
  points leave 10 points), the series of every other meter is unchanged, and so are the
  other tables.
\<close>

theorem initial_series_replace:
  assumes "A \<noteq> ''''"
  shows "\<exists>s'. handleWebSocketMessage (initial_timeseries A d) s = Inr s'
       \<and> timeseriesData s' A = Some d
       \<and> (B \<noteq> A \<longrightarrow> timeseriesData s' B = timeseriesData s B)
       \<and> (timeseriesData s A = Some xs \<and> length xs = 50 \<and> length d = 10 \<longrightarrow>
            length (series_of (timeseriesData s') A) = 10)
       \<and> readings s' = readings s \<and> realtimeData s' = realtimeData s \<and> loading s' = loading s"
  using assms by (simp add: series_of_def)

text \<open>A series of 50 points replaced by 10 points, next to a second meter.\<close>

theorem initial_series_replace_witness:
  "handleWebSocketMessage
       (initial_timeseries ''A'' (map (\<lambda>i. point_at (stamp i)) [100..<110]))
       (initial_dashboard\<lparr>timeseriesData :=
          [''A'' \<mapsto> map (\<lambda>i. point_at (stamp i)) [0..<50], ''B'' \<mapsto> [point_at ''1'']]\<rparr>)
     = Inr (initial_dashboard\<lparr>timeseriesData :=
          [''A'' \<mapsto> map (\<lambda>i. point_at (stamp i)) [100..<110], ''B'' \<mapsto> [point_at ''1'']]\<rparr>)
   \<and> length (map (\<lambda>i. point_at (stamp i)) [0..<50]) = 50
   \<and> length (series_of (timeseriesData (initial_dashboard\<lparr>timeseriesData :=
          [''A'' \<mapsto> map (\<lambda>i. point_at (stamp i)) [100..<110], ''B'' \<mapsto> [point_at ''1'']]\<rparr>))
        ''A'') = 10"
proof -
  let ?d = "map (\<lambda>i. point_at (stamp i)) [100..<110]"
  let ?xs = "map (\<lambda>i. point_at (stamp i)) [0..<50]"
  let ?s = "initial_dashboard\<lparr>timeseriesData := [''A'' \<mapsto> ?xs, ''B'' \<mapsto> [point_at ''1'']]\<rparr>"
  let ?r = "initial_dashboard\<lparr>timeseriesData := [''A'' \<mapsto> ?d, ''B'' \<mapsto> [point_at ''1'']]\<rparr>"
  have 1: "''A'' \<noteq> ''''" by simp
  have r: "handleWebSocketMessage (initial_timeseries ''A'' ?d) ?s = Inr ?r"
    by (simp add: initial_dashboard_def fun_eq_iff)
  have 3: "timeseriesData ?s ''A'' = Some ?xs \<and> length ?xs = 50 \<and> length ?d = 10" by simp
  from initial_series_replace [OF 1, of ?d ?s "''B''" ?xs] obtain s' where
    s': "handleWebSocketMessage (initial_timeseries ''A'' ?d) ?s = Inr s'"
    "timeseriesData ?s ''A'' = Some ?xs \<and> length ?xs = 50 \<and> length ?d = 10 \<longrightarrow>
            length (series_of (timeseriesData s') ''A'') = 10"
    by blast
  from s'(1) r have "s' = ?r" by (simp only: sum.inject)
  with s'(2) 3 have "length (series_of (timeseriesData ?r) ''A'') = 10" by blast
  moreover have "length ?xs = 50" by simp
  ultimately show ?thesis using r by blast
qed

section \<open>Properties of the connection manager\<close>

subsection \<open>The reconnect delay\<close>

lemma upt_10: "[0..<10] = [0, 1, 2, 3, 4, 5, 6, 7, 8, 9::nat]"
  by code_simp

lemma delay_values:
  "map (\<lambda>a. getReconnectDelay ((s::'n hook)\<lparr>reconnectAttemptsRef := a\<rparr>)) [0..<10]
     = [1000, 2000, 4000, 8000, 16000, 30000, 30000, 30000, 30000, 30000]"
  unfolding upt_10
  by (simp add: getReconnectDelay_def BASE_RECONNECT_DELAY_MS_def MAX_RECONNECT_DELAY_MS_def)

lemma delay_cap:
  assumes "5 \<le> (a::nat)"
  shows "min (1000 * 2 ^ a) 30000 = (30000::nat)"
proof -
  from assms have "(2::nat) ^ 5 \<le> 2 ^ a" by (intro power_increasing) simp_all
  then have "(30000::nat) \<le> 1000 * 2 ^ a" by simp
  then show ?thesis by simp
qed


subsection \<open>What the functions leave unchanged; the socket invariant\<close>

lemmas timer_defs = setTimer_def clearTimer_def

lemma stopHeartbeat_frame:
  "sockets (stopHeartbeat s) = sockets s" "wsRef (stopHeartbeat s) = wsRef s"
  "isMountedRef (stopHeartbeat s) = isMountedRef s" "effects (stopHeartbeat s) = effects s"
  "reconnectAttemptsRef (stopHeartbeat s) = reconnectAttemptsRef s"
  "reconnectAttempts (stopHeartbeat s) = reconnectAttempts s"
  "isConnected (stopHeartbeat s) = isConnected s"
  "reconnectTimeoutRef (stopHeartbeat s) = reconnectTimeoutRef s"
  "next_timer (stopHeartbeat s) = next_timer s"
  "heartbeatIntervalRef (stopHeartbeat s) = None" "heartbeatTimeoutRef (stopHeartbeat s) = None"
  by (simp_all add: stopHeartbeat_def timer_defs Let_def split: option.splits)

lemma startHeartbeat_frame:
  "sockets (startHeartbeat s) = sockets s" "wsRef (startHeartbeat s) = wsRef s"
  "isMountedRef (startHeartbeat s) = isMountedRef s" "effects (startHeartbeat s) = effects s"
  by (simp_all add: startHeartbeat_def timer_defs stopHeartbeat_frame split: prod.splits)

lemma onopen_frame:
  "sockets (onopen s) = sockets s" "wsRef (onopen s) = wsRef s"
  "isMountedRef (onopen s) = isMountedRef s"
  by (simp_all add: onopen_def Let_def startHeartbeat_frame)

lemma onmessage_frame:
  "sockets (onmessage f s) = sockets s" "wsRef (onmessage f s) = wsRef s"
  "isMountedRef (onmessage f s) = isMountedRef s"
  by (simp_all add: onmessage_def timer_defs split: frame.splits WebSocketMessage.splits option.splits)

lemma onerror_frame:
  "sockets (onerror s) = sockets s" "wsRef (onerror s) = wsRef s"
  "isMountedRef (onerror s) = isMountedRef s"
  by (simp_all add: onerror_def)

lemma onclose_frame:
  "sockets (onclose s) = sockets s" "wsRef (onclose s) = wsRef s"
  "isMountedRef (onclose s) = isMountedRef s"
  by (simp_all add: onclose_def Let_def timer_defs stopHeartbeat_frame split: prod.splits)

lemma send_frame:
  "sockets (send m s) = sockets s" "wsRef (send m s) = wsRef s"
  "isMountedRef (send m s) = isMountedRef s"
  by (simp_all add: send_def ws_send_def split: option.splits)

lemma heartbeat_interval_callback_frame:
  "sockets (heartbeat_interval_callback now s) = sockets s"
  "wsRef (heartbeat_interval_callback now s) = wsRef s"
  "isMountedRef (heartbeat_interval_callback now s) = isMountedRef s"
  by (simp_all add: heartbeat_interval_callback_def ws_send_def timer_defs
      split: option.splits prod.splits)

lemma wf_sockets_cong:
  "sockets s' = sockets s \<Longrightarrow> wsRef s' = wsRef s \<Longrightarrow> isMountedRef s' = isMountedRef s \<Longrightarrow>
     wf_sockets s' = wf_sockets s"
  by (simp add: wf_sockets_def)

lemma wf_sockets_ws_close: "wf_sockets s \<Longrightarrow> wf_sockets (ws_close i s)"
  by (auto simp: wf_sockets_def ws_close_def socket_in_def nth_list_update)

lemma not_live_closed:
  "r \<noteq> CONNECTING \<Longrightarrow> r \<noteq> OPEN \<Longrightarrow> r = CLOSING \<or> r = CLOSED"
  by (cases r) simp_all

lemma wf_sockets_connect:
  assumes "wf_sockets s"
  shows "wf_sockets (connect s)"
proof (cases "isMountedRef s \<and>
    \<not> (case wsRef s of None \<Rightarrow> False | Some i \<Rightarrow> socket_in s CONNECTING i \<or> socket_in s OPEN i)")
  case False
  then have "connect s = s" by (auto simp: connect_def)
  with assms show ?thesis by simp
next
  case True
  let ?n = "length (sockets s)"
  from True have c: "connect s = s\<lparr>sockets := sockets s @ [CONNECTING], wsRef := Some ?n\<rparr>"
    by (simp add: connect_def ws_new_def)
  have "sockets s ! i = CLOSING \<or> sockets s ! i = CLOSED" if "i < ?n" for i
  proof (cases "wsRef s = Some i")
    case False
    with assms that show ?thesis by (simp add: wf_sockets_def)
  next
    case ws: True
    with True that have "sockets s ! i \<noteq> CONNECTING" "sockets s ! i \<noteq> OPEN"
      by (simp_all add: socket_in_def)
    then show ?thesis by (rule not_live_closed)
  qed
  with True show ?thesis
    unfolding c by (simp add: wf_sockets_def nth_append)
qed


subsection \<open>The socket invariant holds in every reachable state\<close>

lemma ws_close_frame:
  "wsRef (ws_close i s) = wsRef s" "isMountedRef (ws_close i s) = isMountedRef s"
  "length (sockets (ws_close i s)) = length (sockets s)"
  "timers (ws_close i s) = timers s" "effects (ws_close i s) = effects s"
  by (simp_all add: ws_close_def)

lemma ws_close_idem_guard:
  "(if socket_in s OPEN i \<or> socket_in s CONNECTING i then ws_close i s else s) = ws_close i s"
  by (auto simp: ws_close_def)

lemma sockets_ws_close:
  "sockets (ws_close i s) =
     (if i < length (sockets s) \<and> (sockets s ! i = CONNECTING \<or> sockets s ! i = OPEN)
      then (sockets s)[i := CLOSING] else sockets s)"
  by (auto simp: ws_close_def socket_in_def)

lemma disconnect_frame:
  "wsRef (disconnect s) = None"
  "isMountedRef (disconnect s) = isMountedRef s"
  "sockets (disconnect s) = (case wsRef s of None \<Rightarrow> sockets s | Some i \<Rightarrow> sockets (ws_close i s))"
proof -
  define s2 where "s2 = (case reconnectTimeoutRef (stopHeartbeat s) of None \<Rightarrow> stopHeartbeat s
      | Some t \<Rightarrow> (clearTimer t (stopHeartbeat s))\<lparr>reconnectTimeoutRef := None\<rparr>)"
  have fr: "sockets s2 = sockets s" "wsRef s2 = wsRef s" "isMountedRef s2 = isMountedRef s"
    unfolding s2_def by (simp_all add: clearTimer_def stopHeartbeat_frame split: option.splits)
  have d: "disconnect s = (case wsRef s2 of None \<Rightarrow> s2 | Some i \<Rightarrow> (ws_close i s2)\<lparr>wsRef := None\<rparr>)"
    unfolding disconnect_def Let_def ws_close_idem_guard s2_def ..
  show "wsRef (disconnect s) = None"
    unfolding d by (simp split: option.splits)
  show "isMountedRef (disconnect s) = isMountedRef s"
    unfolding d by (simp add: fr ws_close_frame split: option.splits)
  show "sockets (disconnect s) = (case wsRef s of None \<Rightarrow> sockets s | Some i \<Rightarrow> sockets (ws_close i s))"
    unfolding d by (auto simp: fr sockets_ws_close split: option.splits)
qed

lemma wf_sockets_disconnect:
  assumes "wf_sockets s"
  shows "wf_sockets (disconnect s)"
proof -
  have "sockets (disconnect s) ! i = CLOSING \<or> sockets (disconnect s) ! i = CLOSED"
    if "i < length (sockets (disconnect s))" for i
  proof (cases "wsRef s")
    case None
    with assms that show ?thesis by (simp add: disconnect_frame wf_sockets_def)
  next
    case (Some j)
    from assms have "wf_sockets (ws_close j s)" by (rule wf_sockets_ws_close)
    moreover have "sockets (ws_close j s) ! j = CLOSING \<or> sockets (ws_close j s) ! j = CLOSED"
      if "j < length (sockets s)"
      using that by (cases "sockets s ! j") (simp_all add: ws_close_def socket_in_def)
    ultimately show ?thesis using that Some
      by (cases "i = j") (auto simp: disconnect_frame wf_sockets_def ws_close_frame)
  qed
  then show ?thesis by (simp add: wf_sockets_def disconnect_frame)
qed

lemma wf_sockets_open:
  assumes "wf_sockets s" and "socket_in s CONNECTING i"
  shows "wf_sockets (s\<lparr>sockets := (sockets s)[i := OPEN]\<rparr>)"
proof -
  from assms have "wsRef s = Some i" by (auto simp: wf_sockets_def socket_in_def)
  with assms show ?thesis by (auto simp: wf_sockets_def nth_list_update)
qed

lemma wf_sockets_closed:
  assumes "wf_sockets s"
  shows "wf_sockets (s\<lparr>sockets := (sockets s)[i := CLOSED]\<rparr>)"
proof -
  have "(sockets s)[i := CLOSED] ! j = CLOSING \<or> (sockets s)[i := CLOSED] ! j = CLOSED"
    if "j < length (sockets s)" "wsRef s \<noteq> Some j" for j
    using that assms by (cases "j = i") (simp_all add: wf_sockets_def)
  with assms show ?thesis by (simp add: wf_sockets_def)
qed

lemma wf_sockets_mounted:
  "wf_sockets s \<Longrightarrow> wf_sockets (s\<lparr>isMountedRef := True\<rparr>)"
  by (simp add: wf_sockets_def)

lemma wf_sockets_unmounted:
  "wf_sockets s \<Longrightarrow> wf_sockets (disconnect (s\<lparr>isMountedRef := False\<rparr>))"
proof -
  assume "wf_sockets s"
  then have "wf_sockets (disconnect s)" by (rule wf_sockets_disconnect)
  moreover have "sockets (disconnect (s\<lparr>isMountedRef := False\<rparr>)) = sockets (disconnect s)"
    by (auto simp: disconnect_frame sockets_ws_close split: option.splits)
  ultimately show ?thesis
    by (simp add: wf_sockets_def disconnect_frame)
qed

lemma wf_sockets_reset_fields:
  "wf_sockets (s\<lparr>reconnectAttemptsRef := a, reconnectAttempts := b\<rparr>) = wf_sockets s"
  by (simp add: wf_sockets_def)

lemma wf_sockets_clearTimer: "wf_sockets (clearTimer t s) = wf_sockets s"
  by (simp add: wf_sockets_def clearTimer_def)

lemma wf_sockets_step:
  assumes "wf_sockets s" and "step e s = Some s'"
  shows "wf_sockets s'"
proof (cases e)
  case (ws_open_event i)
  with assms(2) have i: "socket_in s CONNECTING i"
    and s': "s' = onopen (s\<lparr>sockets := (sockets s)[i := OPEN]\<rparr>)"
    by (simp_all split: if_splits)
  from assms(1) i have "wf_sockets (s\<lparr>sockets := (sockets s)[i := OPEN]\<rparr>)"
    by (rule wf_sockets_open)
  then show ?thesis unfolding s' by (simp add: wf_sockets_cong [OF onopen_frame])
next
  case (ws_message_event i f)
  with assms(2) have "s' = onmessage f s" by (simp split: if_splits)
  with assms(1) show ?thesis by (simp add: wf_sockets_cong [OF onmessage_frame])
next
  case (ws_error_event i)
  with assms(2) have "s' = onerror s" by (simp split: if_splits)
  with assms(1) show ?thesis by (simp add: wf_sockets_cong [OF onerror_frame])
next
  case (ws_close_event i)
  with assms(2) have s': "s' = onclose (s\<lparr>sockets := (sockets s)[i := CLOSED]\<rparr>)"
    by (simp split: if_splits)
  from assms(1) have "wf_sockets (s\<lparr>sockets := (sockets s)[i := CLOSED]\<rparr>)"
    by (rule wf_sockets_closed)
  then show ?thesis unfolding s' by (simp add: wf_sockets_cong [OF onclose_frame])
next
  case (timer_event t now)
  with assms(2) obtain task where task: "map_of (timers s) t = Some task"
    by (auto split: option.splits)
  show ?thesis
  proof (cases task)
    case (timeout_connect d)
    with task timer_event assms(2) have "s' = connect (clearTimer t s)" by simp
    with assms(1) show ?thesis by (simp add: wf_sockets_connect wf_sockets_clearTimer)
  next
    case (interval_heartbeat d)
    with task timer_event assms(2) have "s' = heartbeat_interval_callback now s" by simp
    with assms(1) show ?thesis
      by (simp add: wf_sockets_cong [OF heartbeat_interval_callback_frame])
  next
    case (timeout_pong d)
    with task timer_event assms(2) have "s' = heartbeat_timeout_callback (clearTimer t s)" by simp
    with assms(1) show ?thesis
      by (simp add: heartbeat_timeout_callback_def wf_sockets_ws_close wf_sockets_clearTimer
          split: option.splits)
  qed
next
  case (call_send m)
  with assms show ?thesis by (auto simp: wf_sockets_cong [OF send_frame])
next
  case call_disconnect
  with assms show ?thesis by (auto simp: wf_sockets_disconnect)
next
  case call_resetConnection
  with assms show ?thesis
    by (auto simp: resetConnection_def wf_sockets_connect wf_sockets_disconnect
        wf_sockets_reset_fields)
next
  case run_effect
  with assms show ?thesis
    by (auto simp: effect_setup_def wf_sockets_connect wf_sockets_mounted)
next
  case run_cleanup
  with assms show ?thesis by (auto simp: effect_cleanup_def wf_sockets_unmounted)
qed

lemma reachable_wf_sockets: "reachable s \<Longrightarrow> wf_sockets s"
proof (induction rule: reachable.induct)
  case reachable_initial
  show ?case by (simp add: wf_sockets_def initial_hook_def)
next
  case (reachable_step s e s')
  then show ?case by (blast intro: wf_sockets_step)
qed

lemma reachable_open_mounted:
  assumes "reachable s" and "socket_in s OPEN i"
  shows "isMountedRef s"
proof -
  from assms(1) have wf: "wf_sockets s" by (rule reachable_wf_sockets)
  with assms(2) have "wsRef s = Some i" by (auto simp: wf_sockets_def socket_in_def)
  with wf show ?thesis by (auto simp: wf_sockets_def)
qed


subsection \<open>Inbound frames\<close>

lemma forwarded_append: "forwarded (es @ es') = forwarded es @ forwarded es'"
  by (induction es rule: forwarded.induct) simp_all

lemma application_messages_append:
  "application_messages (fs @ fs') = application_messages fs @ application_messages fs'"
  by (induction fs rule: application_messages.induct) simp_all

lemma application_messages_pongs:
  "list_all is_pong ps \<Longrightarrow> application_messages (map decoded ps) = []"
  by (induction ps) simp_all

lemma application_messages_no_pong:
  "list_all (\<lambda>m. \<not> is_pong m) (application_messages fs)"
  by (induction fs rule: application_messages.induct) simp_all

lemma onmessage_effects:
  assumes "isMountedRef s"
  shows "effects (onmessage f s) = effects s @ map onMessage_called (application_messages [f])"
proof (cases f)
  case malformed
  with assms show ?thesis by (simp add: onmessage_def)
next
  case (decoded m)
  with assms show ?thesis
    by (cases m) (simp_all add: onmessage_def clearTimer_def split: option.splits)
qed

lemma forwarded_map: "forwarded (map onMessage_called ms) = ms"
  by (induction ms) simp_all

lemma onmessage_forwarded:
  "isMountedRef s \<Longrightarrow>
     forwarded (effects (onmessage f s)) = forwarded (effects s) @ application_messages [f]"
  by (simp add: onmessage_effects forwarded_append forwarded_map)

lemma onmessage_unmounted: "\<not> isMountedRef s \<Longrightarrow> onmessage f s = s"
  by (simp add: onmessage_def)

lemma run_append:
  "run (es @ es') s = (case run es s of None \<Rightarrow> None | Some s' \<Rightarrow> run es' s')"
  by (induction es arbitrary: s) (simp_all split: option.splits)

lemma run_messages:
  assumes "isMountedRef s" and "socket_in s OPEN i"
  shows "\<exists>s'. run (map (ws_message_event i) fs) s = Some s'
            \<and> forwarded (effects s') = forwarded (effects s) @ application_messages fs"
  using assms
proof (induction fs arbitrary: s)
  case Nil
  then show ?case by simp
next
  case (Cons f fs)
  let ?s1 = "onmessage f s"
  from Cons.prems have m: "isMountedRef ?s1" and o: "socket_in ?s1 OPEN i"
    by (simp_all add: onmessage_frame socket_in_def)
  from Cons.IH [OF m o] obtain s' where
    r: "run (map (ws_message_event i) fs) ?s1 = Some s'" and
    e: "forwarded (effects s') = forwarded (effects ?s1) @ application_messages fs"
    by blast
  from Cons.prems(1) have "forwarded (effects ?s1) = forwarded (effects s) @ application_messages [f]"
    by (rule onmessage_forwarded)
  with e have "forwarded (effects s') = forwarded (effects s) @ application_messages (f # fs)"
    using application_messages_append [of "[f]" fs] by simp
  with r Cons.prems(2) show ?case by simp
qed

lemma onmessage_pong:
  assumes "isMountedRef s"
  shows "heartbeatTimeoutRef (onmessage (decoded (pong t st)) s) = None"
    and "heartbeatTimeoutRef s = Some t' \<Longrightarrow>
           map_of (timers (onmessage (decoded (pong t st)) s)) t' = None"
    and "effects (onmessage (decoded (pong t st)) s) = effects s"
proof -
  have aux: "map_of (filter (\<lambda>(i, task). i \<noteq> k) xs) k = None" for k and xs :: "(nat \<times> timer_task) list"
    by (induction xs) auto
  from assms show "heartbeatTimeoutRef (onmessage (decoded (pong t st)) s) = None"
    by (simp add: onmessage_def clearTimer_def split: option.splits)
  from assms show "map_of (timers (onmessage (decoded (pong t st)) s)) t' = None"
    if "heartbeatTimeoutRef s = Some t'"
    using that by (simp add: onmessage_def clearTimer_def aux)
  from assms show "effects (onmessage (decoded (pong t st)) s) = effects s"
    by (simp add: onmessage_def clearTimer_def split: option.splits)
qed


subsection \<open>Pongs are never forwarded\<close>

lemma pong_free_append:
  "pong_free (es @ es') \<longleftrightarrow> pong_free es \<and> pong_free es'"
  by (simp add: pong_free_def forwarded_append)

lemma pong_free_simps:
  "pong_free []" "pong_free [onConnect_called]" "pong_free [onDisconnect_called]"
  "pong_free [onError_called]" "pong_free [onMaxRetriesExceeded_called]"
  "pong_free [ws_sent i m]"
  by (simp_all add: pong_free_def)

lemma onopen_effects:
  "effects (onopen s) = (if isMountedRef s then effects s @ [onConnect_called] else effects s)"
  by (simp add: onopen_def Let_def startHeartbeat_frame)

lemma onerror_effects:
  "effects (onerror s) = (if isMountedRef s then effects s @ [onError_called] else effects s)"
  by (simp add: onerror_def)

lemma onclose_effects:
  "effects (onclose s) =
     (if \<not> isMountedRef s then effects s
      else if MAX_RECONNECT_ATTEMPTS \<le> reconnectAttemptsRef s
      then effects s @ [onDisconnect_called, onMaxRetriesExceeded_called]
      else effects s @ [onDisconnect_called])"
  by (simp add: onclose_def Let_def setTimer_def stopHeartbeat_frame)

lemma connect_effects: "effects (connect s) = effects s"
  by (simp add: connect_def ws_new_def split: option.splits)

lemma disconnect_effects: "effects (disconnect s) = effects s"
proof -
  define s2 where "s2 = (case reconnectTimeoutRef (stopHeartbeat s) of None \<Rightarrow> stopHeartbeat s
      | Some t \<Rightarrow> (clearTimer t (stopHeartbeat s))\<lparr>reconnectTimeoutRef := None\<rparr>)"
  have fr: "effects s2 = effects s"
    unfolding s2_def by (simp add: clearTimer_def stopHeartbeat_frame split: option.splits)
  have d: "disconnect s = (case wsRef s2 of None \<Rightarrow> s2 | Some i \<Rightarrow> (ws_close i s2)\<lparr>wsRef := None\<rparr>)"
    unfolding disconnect_def Let_def ws_close_idem_guard s2_def ..
  show ?thesis unfolding d by (simp add: fr ws_close_frame split: option.splits)
qed

lemma send_effects:
  "effects (send m s) = effects s \<or> (\<exists>i. effects (send m s) = effects s @ [ws_sent i m])"
  by (simp add: send_def ws_send_def split: option.splits)

lemma heartbeat_interval_callback_effects:
  "effects (heartbeat_interval_callback now s) = effects s
   \<or> (\<exists>i. effects (heartbeat_interval_callback now s) = effects s @ [ws_sent i (ping now)])"
  by (simp add: heartbeat_interval_callback_def ws_send_def setTimer_def split: option.splits)

lemma heartbeat_timeout_callback_effects:
  "effects (heartbeat_timeout_callback s) = effects s"
  by (simp add: heartbeat_timeout_callback_def ws_close_frame split: option.splits)

lemma resetConnection_effects: "effects (resetConnection s) = effects s"
  by (simp add: resetConnection_def connect_effects disconnect_effects)

lemma onmessage_pong_free:
  "pong_free (effects s) \<Longrightarrow> pong_free (effects (onmessage f s))"
proof (cases "isMountedRef s")
  case True
  assume "pong_free (effects s)"
  with True application_messages_no_pong [of "[f]"] show ?thesis
    by (simp add: pong_free_def onmessage_forwarded)
next
  case False
  assume "pong_free (effects s)"
  with False show ?thesis by (simp add: onmessage_unmounted)
qed

lemma pong_free_step:
  assumes "pong_free (effects s)" and "step e s = Some s'"
  shows "pong_free (effects s')"
proof (cases e)
  case (ws_open_event i)
  with assms show ?thesis
    by (auto simp: onopen_effects pong_free_append pong_free_simps split: if_splits)
next
  case (ws_message_event i f)
  with assms show ?thesis by (auto simp: onmessage_pong_free split: if_splits)
next
  case (ws_error_event i)
  with assms show ?thesis
    by (auto simp: onerror_effects pong_free_append pong_free_simps split: if_splits)
next
  case (ws_close_event i)
  with assms(2) have s': "s' = onclose (s\<lparr>sockets := (sockets s)[i := CLOSED]\<rparr>)"
    by (simp split: if_splits)
  have "[onDisconnect_called, onMaxRetriesExceeded_called]
      = [onDisconnect_called] @ [onMaxRetriesExceeded_called :: 'a effect]" by simp
  then have "pong_free [onDisconnect_called, onMaxRetriesExceeded_called :: 'a effect]"
    by (simp only: pong_free_append pong_free_simps)
  with assms(1) show ?thesis
    unfolding s' by (simp add: onclose_effects pong_free_append pong_free_simps)
next
  case (timer_event t now)
  with assms(2) obtain task where task: "map_of (timers s) t = Some task"
    by (auto split: option.splits)
  show ?thesis
  proof (cases task)
    case (timeout_connect d)
    with task timer_event assms show ?thesis
      by (auto simp: connect_effects clearTimer_def)
  next
    case (interval_heartbeat d)
    with task timer_event assms(2) have "s' = heartbeat_interval_callback now s" by simp
    with assms(1) heartbeat_interval_callback_effects [of now s] show ?thesis
      by (auto simp: pong_free_append pong_free_simps)
  next
    case (timeout_pong d)
    with task timer_event assms show ?thesis
      by (auto simp: heartbeat_timeout_callback_effects clearTimer_def)
  qed
next
  case (call_send m)
  with assms(2) have "s' = send m s" by simp
  with assms(1) send_effects [of m s] show ?thesis
    by (auto simp: pong_free_append pong_free_simps)
next
  case call_disconnect
  with assms show ?thesis by (auto simp: disconnect_effects)
next
  case call_resetConnection
  with assms show ?thesis by (auto simp: resetConnection_effects)
next
  case run_effect
  with assms show ?thesis by (auto simp: effect_setup_def connect_effects)
next
  case run_cleanup
  with assms show ?thesis by (auto simp: effect_cleanup_def disconnect_effects)
qed

lemma reachable_pong_free: "reachable s \<Longrightarrow> pong_free (effects s)"
proof (induction rule: reachable.induct)
  case reachable_initial
  show ?case by (simp add: initial_hook_def pong_free_def)
next
  case (reachable_step s e s')
  then show ?case by (blast intro: pong_free_step)
qed

lemma reachable_run: "reachable s \<Longrightarrow> run es s = Some s' \<Longrightarrow> reachable s'"
proof (induction es arbitrary: s)
  case Nil
  then show ?case by simp
next
  case (Cons e es)
  then show ?case by (auto split: option.splits intro: reachable_step)
qed


subsection \<open>Reset and disconnect\<close>

lemma stopHeartbeat_timers:
  "timers (stopHeartbeat s) =
     filter (\<lambda>(t, task). heartbeatIntervalRef s \<noteq> Some t \<and> heartbeatTimeoutRef s \<noteq> Some t)
       (timers s)"
  by (cases "heartbeatIntervalRef s"; cases "heartbeatTimeoutRef s")
     (auto simp: stopHeartbeat_def clearTimer_def intro!: filter_cong)

lemma disconnect_fields:
  "timers (disconnect s) = filter (\<lambda>(t, task). \<not> cleared_by_disconnect s t) (timers s)"
  "reconnectTimeoutRef (disconnect s) = None"
  "heartbeatIntervalRef (disconnect s) = None"
  "heartbeatTimeoutRef (disconnect s) = None"
  "reconnectAttemptsRef (disconnect s) = reconnectAttemptsRef s"
  "reconnectAttempts (disconnect s) = reconnectAttempts s"
  "isConnected (disconnect s) = isConnected s"
  "next_timer (disconnect s) = next_timer s"
proof -
  define s2 where "s2 = (case reconnectTimeoutRef (stopHeartbeat s) of None \<Rightarrow> stopHeartbeat s
      | Some t \<Rightarrow> (clearTimer t (stopHeartbeat s))\<lparr>reconnectTimeoutRef := None\<rparr>)"
  have d: "disconnect s = (case wsRef s2 of None \<Rightarrow> s2 | Some i \<Rightarrow> (ws_close i s2)\<lparr>wsRef := None\<rparr>)"
    unfolding disconnect_def Let_def ws_close_idem_guard s2_def ..
  have t2: "timers s2 = filter (\<lambda>(t, task). \<not> cleared_by_disconnect s t) (timers s)"
    unfolding s2_def
    by (cases "reconnectTimeoutRef s")
       (auto simp: stopHeartbeat_frame stopHeartbeat_timers clearTimer_def
          cleared_by_disconnect_def intro!: filter_cong)
  have fr: "reconnectTimeoutRef s2 = None" "heartbeatIntervalRef s2 = None"
    "heartbeatTimeoutRef s2 = None" "reconnectAttemptsRef s2 = reconnectAttemptsRef s"
    "reconnectAttempts s2 = reconnectAttempts s" "isConnected s2 = isConnected s"
    "next_timer s2 = next_timer s"
    unfolding s2_def by (simp_all add: clearTimer_def stopHeartbeat_frame split: option.splits)
  show "timers (disconnect s) = filter (\<lambda>(t, task). \<not> cleared_by_disconnect s t) (timers s)"
    unfolding d by (simp add: t2 ws_close_frame split: option.splits)
  show "reconnectTimeoutRef (disconnect s) = None" "heartbeatIntervalRef (disconnect s) = None"
    "heartbeatTimeoutRef (disconnect s) = None"
    "reconnectAttemptsRef (disconnect s) = reconnectAttemptsRef s"
    "reconnectAttempts (disconnect s) = reconnectAttempts s"
    "isConnected (disconnect s) = isConnected s"
    "next_timer (disconnect s) = next_timer s"
    unfolding d by (simp_all add: fr ws_close_def split: option.splits)
qed

lemma disconnect_more: "hook.more (disconnect s) = hook.more s"
proof -
  define s2 where "s2 = (case reconnectTimeoutRef (stopHeartbeat s) of None \<Rightarrow> stopHeartbeat s
      | Some t \<Rightarrow> (clearTimer t (stopHeartbeat s))\<lparr>reconnectTimeoutRef := None\<rparr>)"
  have d: "disconnect s = (case wsRef s2 of None \<Rightarrow> s2 | Some i \<Rightarrow> (ws_close i s2)\<lparr>wsRef := None\<rparr>)"
    unfolding disconnect_def Let_def ws_close_idem_guard s2_def ..
  have "hook.more s2 = hook.more s"
    unfolding s2_def
    by (simp add: clearTimer_def stopHeartbeat_def Let_def split: option.splits)
  then show ?thesis unfolding d by (simp add: ws_close_def split: option.splits)
qed

lemma disconnect_length: "length (sockets (disconnect s)) = length (sockets s)"
  by (simp add: disconnect_frame ws_close_frame split: option.splits)

lemmas disconnect_all =
  disconnect_frame disconnect_fields disconnect_effects

lemma disconnect_reset_fields:
  "disconnect (s\<lparr>reconnectAttemptsRef := a, reconnectAttempts := b\<rparr>)
     = (disconnect s)\<lparr>reconnectAttemptsRef := a, reconnectAttempts := b\<rparr>"
  by (rule hook.equality)
     (auto simp: disconnect_all disconnect_more cleared_by_disconnect_def sockets_ws_close
        split: option.splits)

lemma map_of_filter_out:
  "\<not> P k \<Longrightarrow> map_of (filter (\<lambda>(t, task). P t) xs) k = None"
  by (induction xs) auto

lemma resetConnection_fields:
  assumes "isMountedRef s"
  shows "sockets (resetConnection s) = sockets (disconnect s) @ [CONNECTING]"
    and "wsRef (resetConnection s) = Some (length (sockets s))"
    and "timers (resetConnection s)
           = filter (\<lambda>(t, task). \<not> cleared_by_disconnect s t) (timers s)"
    and "reconnectAttemptsRef (resetConnection s) = 0"
    and "reconnectAttempts (resetConnection s) = 0"
    and "reconnectTimeoutRef (resetConnection s) = None"
    and "heartbeatIntervalRef (resetConnection s) = None"
    and "heartbeatTimeoutRef (resetConnection s) = None"
    and "isMountedRef (resetConnection s)"
    and "effects (resetConnection s) = effects s"
    and "isConnected (resetConnection s) = isConnected s"
proof -
  let ?d = "(disconnect s)\<lparr>reconnectAttemptsRef := 0, reconnectAttempts := 0\<rparr>"
  note fr = disconnect_frame(1,2) disconnect_fields disconnect_effects disconnect_length
  from assms have c: "connect ?d = ?d\<lparr>sockets := sockets ?d @ [CONNECTING],
      wsRef := Some (length (sockets ?d))\<rparr>"
    by (simp add: connect_def ws_new_def fr)
  from assms have r: "resetConnection s = connect ?d"
    by (simp add: resetConnection_def disconnect_reset_fields)
  show "sockets (resetConnection s) = sockets (disconnect s) @ [CONNECTING]"
    and "wsRef (resetConnection s) = Some (length (sockets s))"
    and "timers (resetConnection s)
           = filter (\<lambda>(t, task). \<not> cleared_by_disconnect s t) (timers s)"
    and "reconnectAttemptsRef (resetConnection s) = 0"
    and "reconnectAttempts (resetConnection s) = 0"
    and "reconnectTimeoutRef (resetConnection s) = None"
    and "heartbeatIntervalRef (resetConnection s) = None"
    and "heartbeatTimeoutRef (resetConnection s) = None"
    and "isMountedRef (resetConnection s)"
    and "effects (resetConnection s) = effects s"
    and "isConnected (resetConnection s) = isConnected s"
    unfolding r c using assms by (simp_all add: fr)
qed



subsection \<open>Failed reconnect attempts\<close>

lemma all_closed_not_live:
  "list_all (\<lambda>r. r = CLOSED) (sockets s) \<Longrightarrow> st \<noteq> CLOSED \<Longrightarrow> \<not> socket_in s st i"
  by (auto simp: socket_in_def list_all_length)

lemma connect_all_closed:
  assumes "isMountedRef s" and "list_all (\<lambda>r. r = CLOSED) (sockets s)"
  shows "connect s = s\<lparr>sockets := sockets s @ [CONNECTING], wsRef := Some (length (sockets s))\<rparr>"
proof -
  have "\<not> (case wsRef s of None \<Rightarrow> False
            | Some i \<Rightarrow> socket_in s CONNECTING i \<or> socket_in s OPEN i)"
    using all_closed_not_live [OF assms(2)] by (simp split: option.splits)
  with assms(1) show ?thesis by (simp add: connect_def ws_new_def)
qed

lemma backoff_timer_fires:
  assumes "in_backoff s" and "reconnectTimeoutRef s = Some t"
  shows "step (timer_event t now) s
     = Some (s\<lparr>timers := [], sockets := sockets s @ [CONNECTING],
               wsRef := Some (length (sockets s))\<rparr>)"
proof -
  from assms obtain d where tm: "timers s = [(t, timeout_connect d)]"
    by (auto simp: in_backoff_def)
  from assms(1) have "isMountedRef (clearTimer t s)"
    and "list_all (\<lambda>r. r = CLOSED) (sockets (clearTimer t s))"
    by (simp_all add: in_backoff_def clearTimer_def)
  then have "connect (clearTimer t s) = (clearTimer t s)\<lparr>sockets := sockets (clearTimer t s) @ [CONNECTING],
      wsRef := Some (length (sockets (clearTimer t s)))\<rparr>"
    by (rule connect_all_closed)
  with tm show ?thesis by (simp add: clearTimer_def)
qed

lemma failed_reconnect_backoff:
  assumes "in_backoff s"
  shows "\<exists>t. reconnectTimeoutRef s = Some t \<and>
     failed_reconnect now s
     = Some (onclose (s\<lparr>timers := [], sockets := sockets s @ [CLOSED],
               wsRef := Some (length (sockets s)), isConnected := False,
               effects := effects s @ [onError_called]\<rparr>))"
proof -
  from assms obtain t where t: "reconnectTimeoutRef s = Some t"
    by (auto simp: in_backoff_def split: option.splits)
  from assms have m: "isMountedRef s" by (simp add: in_backoff_def)
  let ?n = "length (sockets s)"
  define s1 where "s1 = s\<lparr>timers := [], sockets := sockets s @ [CONNECTING], wsRef := Some ?n\<rparr>"
  define s2 where "s2 = onerror s1"
  define s3 where "s3 = onclose (s2\<lparr>sockets := (sockets s2)[?n := CLOSED]\<rparr>)"
  have 1: "step (timer_event t now) s = Some s1"
    unfolding s1_def using assms t by (rule backoff_timer_fires)
  have 2: "step (ws_error_event ?n) s1 = Some s2"
    by (simp add: s2_def s1_def socket_in_def)
  have 3: "step (ws_close_event ?n) s2 = Some s3"
    by (simp add: s3_def s2_def s1_def socket_in_def onerror_def)
  have "s2\<lparr>sockets := (sockets s2)[?n := CLOSED]\<rparr>
      = s\<lparr>timers := [], sockets := sockets s @ [CLOSED],
               wsRef := Some ?n, isConnected := False,
               effects := effects s @ [onError_called]\<rparr>"
    using m by (simp add: s2_def s1_def onerror_def)
  then have "s3 = onclose (s\<lparr>timers := [], sockets := sockets s @ [CLOSED],
               wsRef := Some ?n, isConnected := False,
               effects := effects s @ [onError_called]\<rparr>)"
    by (simp only: s3_def)
  moreover have "failed_reconnect now s = Some s3"
    by (simp add: failed_reconnect_def t 1 2 3 del: step.simps)
  ultimately show ?thesis using t by simp
qed

lemma failed_reconnect_again:
  assumes "in_backoff s" and "reconnectAttemptsRef s < MAX_RECONNECT_ATTEMPTS"
  shows "\<exists>s'. failed_reconnect now s = Some s' \<and> in_backoff s'
           \<and> reconnectAttemptsRef s' = reconnectAttemptsRef s + 1
           \<and> effects s' = effects s @ [onError_called, onDisconnect_called]"
proof -
  let ?s3 = "s\<lparr>timers := [], sockets := sockets s @ [CLOSED],
               wsRef := Some (length (sockets s)), isConnected := False,
               effects := effects s @ [onError_called]\<rparr>"
  from failed_reconnect_backoff [OF assms(1)]
  have r: "failed_reconnect now s = Some (onclose ?s3)" by blast
  from assms have "in_backoff (onclose ?s3)"
    by (simp add: in_backoff_def onclose_def stopHeartbeat_def setTimer_def Let_def
        getReconnectDelay_def)
  moreover from assms have "reconnectAttemptsRef (onclose ?s3) = reconnectAttemptsRef s + 1"
    by (simp add: in_backoff_def onclose_def stopHeartbeat_def setTimer_def Let_def)
  moreover from assms have "effects (onclose ?s3) = effects s @ [onError_called, onDisconnect_called]"
    by (simp add: in_backoff_def onclose_effects)
  ultimately show ?thesis using r by simp
qed

lemma failed_reconnect_exhausted:
  assumes "in_backoff s" and "MAX_RECONNECT_ATTEMPTS \<le> reconnectAttemptsRef s"
  shows "\<exists>s'. failed_reconnect now s = Some s' \<and> dormant s'
           \<and> isMountedRef s' \<and> \<not> isConnected s'
           \<and> reconnectAttemptsRef s' = reconnectAttemptsRef s
           \<and> effects s' = effects s
                @ [onError_called, onDisconnect_called, onMaxRetriesExceeded_called]"
proof -
  let ?s3 = "s\<lparr>timers := [], sockets := sockets s @ [CLOSED],
               wsRef := Some (length (sockets s)), isConnected := False,
               effects := effects s @ [onError_called]\<rparr>"
  from failed_reconnect_backoff [OF assms(1)]
  have r: "failed_reconnect now s = Some (onclose ?s3)" by blast
  from assms have "dormant (onclose ?s3)" "isMountedRef (onclose ?s3)"
    "\<not> isConnected (onclose ?s3)" "reconnectAttemptsRef (onclose ?s3) = reconnectAttemptsRef s"
    by (simp_all add: in_backoff_def dormant_def onclose_def stopHeartbeat_def Let_def)
  moreover from assms have "effects (onclose ?s3) = effects s
                @ [onError_called, onDisconnect_called, onMaxRetriesExceeded_called]"
    by (simp add: in_backoff_def onclose_effects)
  ultimately show ?thesis using r by simp
qed

lemma failed_reconnects_backoff:
  assumes "in_backoff s" and "reconnectAttemptsRef s + k \<le> MAX_RECONNECT_ATTEMPTS"
  shows "\<exists>s'. failed_reconnects now k s = Some s' \<and> in_backoff s'
           \<and> reconnectAttemptsRef s' = reconnectAttemptsRef s + k
           \<and> effects s' = effects s @ concat (replicate k [onError_called, onDisconnect_called])"
  using assms
proof (induction k arbitrary: s)
  case 0
  then show ?case by simp
next
  case (Suc k)
  from Suc.prems have "reconnectAttemptsRef s < MAX_RECONNECT_ATTEMPTS" by simp
  from failed_reconnect_again [OF Suc.prems(1) this, of now] obtain s1 where
    s1: "failed_reconnect now s = Some s1" "in_backoff s1"
      "reconnectAttemptsRef s1 = reconnectAttemptsRef s + 1"
      "effects s1 = effects s @ [onError_called, onDisconnect_called]"
    by blast
  from Suc.prems(2) s1(3) have "reconnectAttemptsRef s1 + k \<le> MAX_RECONNECT_ATTEMPTS" by simp
  from Suc.IH [OF s1(2) this] obtain s' where
    "failed_reconnects now k s1 = Some s'" "in_backoff s'"
    "reconnectAttemptsRef s' = reconnectAttemptsRef s1 + k"
    "effects s' = effects s1 @ concat (replicate k [onError_called, onDisconnect_called])"
    by blast
  with s1 show ?case by simp
qed

lemma failed_reconnects_add:
  "failed_reconnects now (j + k) s =
     (case failed_reconnects now j s of None \<Rightarrow> None | Some s' \<Rightarrow> failed_reconnects now k s')"
  by (induction j arbitrary: s) (simp_all split: option.splits)

lemma dormant_no_automatic:
  assumes "dormant s" and "automatic e"
  shows "step e s = None"
proof -
  from assms(1) have cl: "list_all (\<lambda>r. r = CLOSED) (sockets s)" and tm: "timers s = []"
    by (simp_all add: dormant_def)
  have closed: "socket_in s CLOSED i" if "i < length (sockets s)" for i
    using cl that by (simp add: socket_in_def list_all_length)
  from assms(2) show ?thesis
  proof (cases e)
    case (ws_open_event i)
    then show ?thesis using all_closed_not_live [OF cl, of CONNECTING i] by simp
  next
    case (ws_message_event i f)
    then show ?thesis using all_closed_not_live [OF cl, of OPEN i] by simp
  next
    case (ws_error_event i)
    then show ?thesis using closed [of i] by simp
  next
    case (ws_close_event i)
    then show ?thesis using closed [of i] by simp
  next
    case (timer_event t now)
    then show ?thesis using tm by simp
  qed simp_all
qed


subsection \<open>The example states are reachable\<close>

lemmas hook_defs =
  setTimer_def clearTimer_def socket_in_def ws_new_def ws_close_def ws_send_def
  stopHeartbeat_def startHeartbeat_def heartbeat_interval_callback_def
  heartbeat_timeout_callback_def getReconnectDelay_def connect_def onopen_def onmessage_def
  onerror_def onclose_def disconnect_def send_def resetConnection_def effect_setup_def
  effect_cleanup_def HEARTBEAT_INTERVAL_MS_def HEARTBEAT_TIMEOUT_MS_def
  BASE_RECONNECT_DELAY_MS_def MAX_RECONNECT_DELAY_MS_def MAX_RECONNECT_ATTEMPTS_def

lemma run_connecting: "run [run_effect] initial_hook = Some connecting_hook"
  by (simp add: hook_defs initial_hook_def connecting_hook_def)

lemma run_connected:
  "run [ws_open_event 0, timer_event 1 1700000000000] connecting_hook = Some connected_hook"
  by (simp add: hook_defs connecting_hook_def connected_hook_def Let_def)

lemma run_backoff:
  "run [ws_error_event 0, ws_close_event 0] connecting_hook = Some backoff_hook"
  by (simp add: hook_defs connecting_hook_def backoff_hook_def Let_def)

lemma run_torn_down: "run [run_cleanup] backoff_hook = Some torn_down_hook"
  by (simp add: hook_defs backoff_hook_def torn_down_hook_def Let_def)

lemma reachable_connecting: "reachable connecting_hook"
  using reachable_run [OF reachable_initial run_connecting] .

lemma reachable_connected: "reachable connected_hook"
  using reachable_run [OF reachable_connecting run_connected] .

lemma reachable_backoff: "reachable backoff_hook"
  using reachable_run [OF reachable_connecting run_backoff] .

lemma reachable_torn_down: "reachable torn_down_hook"
  using reachable_run [OF reachable_backoff run_torn_down] .

subsection \<open>Runs in which every attempt fails\<close>

lemma update_last:
  "xs \<noteq> [] \<Longrightarrow> xs[length xs - 1 := v] = butlast xs @ [v]"
  by (cases xs rule: rev_cases) (simp_all add: list_update_append)

lemma backoff_step:
  assumes "in_backoff s" and "failing e" and "step e s = Some s'"
  shows "attempting s' \<and> \<not> is_close e
       \<and> reconnectAttemptsRef s' = reconnectAttemptsRef s \<and> effects s' = effects s"
proof -
  from assms(1) obtain t where t: "reconnectTimeoutRef s = Some t"
    by (auto simp: in_backoff_def split: option.splits)
  from assms(1) t obtain d where tm: "timers s = [(t, timeout_connect d)]"
    by (auto simp: in_backoff_def)
  from assms(1) have cl: "list_all (\<lambda>r. r = CLOSED) (sockets s)"
    by (simp add: in_backoff_def)
  have closed: "socket_in s CLOSED i" if "i < length (sockets s)" for i
    using cl that by (simp add: socket_in_def list_all_length)
  from assms(2,3) obtain t' now where e: "e = timer_event t' now"
    using all_closed_not_live [OF cl, of OPEN] closed
    by (cases e) (auto split: if_splits)
  with assms(3) tm have "t' = t" by (auto split: option.splits if_splits)
  with e assms(3) backoff_timer_fires [OF assms(1) t, of now]
  have s': "s' = s\<lparr>timers := [], sockets := sockets s @ [CONNECTING],
               wsRef := Some (length (sockets s))\<rparr>" by simp
  from assms(1) cl have "attempting s'"
    unfolding s' by (simp add: attempting_def in_backoff_def)
  with e s' show ?thesis by simp
qed

lemma attempting_step:
  assumes "attempting s" and "failing e" and "step e s = Some s'"
  shows "(\<not> is_close e \<and> attempting s' \<and> reconnectAttemptsRef s' = reconnectAttemptsRef s
            \<and> exhaustion_calls s' = exhaustion_calls s)
       \<or> (is_close e \<and> reconnectAttemptsRef s < MAX_RECONNECT_ATTEMPTS \<and> in_backoff s'
            \<and> reconnectAttemptsRef s' = reconnectAttemptsRef s + 1
            \<and> exhaustion_calls s' = exhaustion_calls s)
       \<or> (is_close e \<and> MAX_RECONNECT_ATTEMPTS \<le> reconnectAttemptsRef s \<and> dormant s'
            \<and> isMountedRef s' \<and> reconnectAttemptsRef s' = reconnectAttemptsRef s
            \<and> exhaustion_calls s' = exhaustion_calls s + 1)"
proof -
  let ?n = "length (sockets s) - 1"
  from assms(1) have ne: "sockets s \<noteq> []" and m: "isMountedRef s" and tm: "timers s = []"
    and hb: "heartbeatIntervalRef s = None" "heartbeatTimeoutRef s = None"
    and bl: "list_all (\<lambda>r. r = CLOSED) (butlast (sockets s))"
    and la: "last (sockets s) = CONNECTING"
    by (simp_all add: attempting_def)
  from ne have n: "?n < length (sockets s)" by (cases "sockets s") simp_all
  from ne la have nth_n: "sockets s ! ?n = CONNECTING" by (simp add: last_conv_nth)
  have other: "sockets s ! i = CLOSED" if "i < length (sockets s)" "i \<noteq> ?n" for i
  proof -
    from that have "i < length (butlast (sockets s))" by simp
    with bl have "butlast (sockets s) ! i = CLOSED" by (simp add: list_all_length)
    with \<open>i < length (butlast (sockets s))\<close> show ?thesis by (simp add: nth_butlast)
  qed
  have no_open: "\<not> socket_in s OPEN i" for i
    using other [of i] nth_n by (cases "i = ?n") (auto simp: socket_in_def)
  have upd: "(sockets s)[?n := CLOSED] = butlast (sockets s) @ [CLOSED]"
    using ne by (rule update_last)
  consider (err) "e = ws_error_event ?n" | (cls) "e = ws_close_event ?n"
  proof (cases e)
    case (ws_open_event i)
    with assms(2) show ?thesis by simp
  next
    case (ws_message_event i f)
    with assms(3) no_open show ?thesis by (simp split: if_splits)
  next
    case (ws_error_event i)
    with assms(3) other [of i] have "i = ?n" by (auto simp: socket_in_def split: if_splits)
    with ws_error_event that show ?thesis by simp
  next
    case (ws_close_event i)
    with assms(3) other [of i] have "i = ?n" by (auto simp: socket_in_def split: if_splits)
    with ws_close_event that show ?thesis by simp
  next
    case (timer_event t now)
    with assms(3) tm show ?thesis by simp
  qed (use assms(2) in simp_all)
  then show ?thesis
  proof cases
    case err
    with assms(3) m have s': "s' = s\<lparr>isConnected := False, effects := effects s @ [onError_called]\<rparr>"
      by (simp add: onerror_def split: if_splits)
    from assms(1) have "attempting s'" unfolding s' by (simp add: attempting_def)
    with err show ?thesis unfolding s' by (simp add: exhaustion_calls_def)
  next
    case cls
    let ?s1 = "s\<lparr>sockets := butlast (sockets s) @ [CLOSED]\<rparr>"
    from cls assms(3) upd have s': "s' = onclose ?s1" by (simp split: if_splits)
    have all: "list_all (\<lambda>r. r = CLOSED) (butlast (sockets s) @ [CLOSED])" using bl by simp
    show ?thesis
    proof (cases "reconnectAttemptsRef s < MAX_RECONNECT_ATTEMPTS")
      case True
      with m tm hb all have "in_backoff s'" "reconnectAttemptsRef s' = reconnectAttemptsRef s + 1"
        unfolding s'
        by (simp_all add: in_backoff_def onclose_def stopHeartbeat_def setTimer_def Let_def
            getReconnectDelay_def)
      moreover from m True have "exhaustion_calls s' = exhaustion_calls s"
        unfolding s' by (simp add: exhaustion_calls_def onclose_effects)
      ultimately show ?thesis using cls True by simp
    next
      case False
      with m tm hb all have "dormant s'" "isMountedRef s'"
        "reconnectAttemptsRef s' = reconnectAttemptsRef s"
        unfolding s' by (simp_all add: dormant_def onclose_def stopHeartbeat_def Let_def)
      moreover from m False have "exhaustion_calls s' = exhaustion_calls s + 1"
        unfolding s' by (simp add: exhaustion_calls_def onclose_effects)
      ultimately show ?thesis using cls False by simp
    qed
  qed
qed

lemma failing_automatic: "failing e \<Longrightarrow> automatic e"
  by (cases e) simp_all

lemma dormant_run:
  assumes "dormant s" and "list_all failing es" and "run es s = Some s'"
  shows "es = []"
proof (cases es)
  case (Cons e es')
  with assms(2) have "automatic e" by (simp add: failing_automatic)
  with assms(1) have "step e s = None" by (rule dormant_no_automatic)
  with Cons assms(3) show ?thesis by simp
qed simp

lemma failing_run:
  assumes "in_backoff s \<or> attempting s" and "reconnectAttemptsRef s \<le> MAX_RECONNECT_ATTEMPTS"
    and "list_all failing es" and "run es s = Some s'"
  shows "(reconnectAttemptsRef s + closes es \<le> MAX_RECONNECT_ATTEMPTS
            \<and> (in_backoff s' \<or> attempting s')
            \<and> reconnectAttemptsRef s' = reconnectAttemptsRef s + closes es
            \<and> exhaustion_calls s' = exhaustion_calls s)
       \<or> (reconnectAttemptsRef s + closes es = MAX_RECONNECT_ATTEMPTS + 1
            \<and> dormant s' \<and> isMountedRef s'
            \<and> reconnectAttemptsRef s' = MAX_RECONNECT_ATTEMPTS
            \<and> exhaustion_calls s' = exhaustion_calls s + 1)"
  using assms
proof (induction es arbitrary: s)
  case Nil
  then show ?case by (simp add: closes_def)
next
  case (Cons e es)
  from Cons.prems(4) obtain s1 where s1: "step e s = Some s1" "run es s1 = Some s'"
    by (auto split: option.splits)
  from Cons.prems(3) have fe: "failing e" and fes: "list_all failing es" by simp_all
  consider (same) "\<not> is_close e" "attempting s1"
      "reconnectAttemptsRef s1 = reconnectAttemptsRef s" "exhaustion_calls s1 = exhaustion_calls s"
    | (again) "is_close e" "reconnectAttemptsRef s < MAX_RECONNECT_ATTEMPTS" "in_backoff s1"
      "reconnectAttemptsRef s1 = reconnectAttemptsRef s + 1"
      "exhaustion_calls s1 = exhaustion_calls s"
    | (exhausted) "is_close e" "MAX_RECONNECT_ATTEMPTS \<le> reconnectAttemptsRef s" "dormant s1"
      "isMountedRef s1" "reconnectAttemptsRef s1 = reconnectAttemptsRef s"
      "exhaustion_calls s1 = exhaustion_calls s + 1"
  proof (cases "in_backoff s")
    case True
    from backoff_step [OF True fe s1(1)] that(1) show ?thesis
      by (simp add: exhaustion_calls_def)
  next
    case False
    with Cons.prems(1) have "attempting s" by simp
    from attempting_step [OF this fe s1(1)] that show ?thesis by blast
  qed
  then show ?case
  proof cases
    case same
    from same(2,3) Cons.prems(2) have "in_backoff s1 \<or> attempting s1"
      "reconnectAttemptsRef s1 \<le> MAX_RECONNECT_ATTEMPTS" by simp_all
    from Cons.IH [OF this fes s1(2)] same show ?thesis by (simp add: closes_def)
  next
    case again
    from again(2,3,4) have "in_backoff s1 \<or> attempting s1"
      "reconnectAttemptsRef s1 \<le> MAX_RECONNECT_ATTEMPTS" by simp_all
    from Cons.IH [OF this fes s1(2)] again show ?thesis by (simp add: closes_def)
  next
    case exhausted
    from dormant_run [OF exhausted(3) fes s1(2)] have "es = []" .
    with s1(2) have "s' = s1" by simp
    with exhausted Cons.prems(2) \<open>es = []\<close> show ?thesis by (simp add: closes_def)
  qed
qed

lemma closes_append: "closes (es @ es') = closes es + closes es'"
  by (simp add: closes_def)

lemma failed_reconnects_as_run:
  "failed_reconnects now k s = Some t \<Longrightarrow>
     \<exists>es. list_all failing es \<and> closes es = k \<and> run es s = Some t"
proof (induction k arbitrary: s)
  case 0
  then have "list_all failing ([] :: 'a event list) \<and> closes ([] :: 'a event list) = 0
      \<and> run [] s = Some t" by (simp add: closes_def)
  then show ?case by blast
next
  case (Suc k)
  from Suc.prems obtain s1 where s1: "failed_reconnect now s = Some s1"
    "failed_reconnects now k s1 = Some t"
    by (auto split: option.splits)
  from s1(1) obtain tm where tm: "reconnectTimeoutRef s = Some tm" and
    r: "run [timer_event tm now, ws_error_event (length (sockets s)),
             ws_close_event (length (sockets s))] s = Some s1"
    by (auto simp: failed_reconnect_def split: option.splits)
  let ?round = "[timer_event tm now, ws_error_event (length (sockets s)),
             ws_close_event (length (sockets s))]"
  from Suc.IH [OF s1(2)] obtain es where
    es: "list_all failing es" "closes es = k" "run es s1 = Some t" by blast
  have "list_all failing (?round @ es)" using es(1) by simp
  moreover have "closes (?round @ es) = Suc k"
    using es(2) by (simp add: closes_append) (simp add: closes_def)
  moreover have "run (?round @ es) s = Some t"
    unfolding run_append using r es(3) by (simp del: run.simps)
  ultimately show ?case by blast
qed

lemma exhaustion_run_exists:
  assumes "in_backoff s" and "reconnectAttemptsRef s = 1"
  shows "\<exists>es t. list_all failing es \<and> closes es = 10 \<and> run es s = Some t"
proof -
  from assms have "reconnectAttemptsRef s + 9 \<le> MAX_RECONNECT_ATTEMPTS"
    by (simp add: MAX_RECONNECT_ATTEMPTS_def)
  from failed_reconnects_backoff [OF assms(1) this, of now] obtain s9 where
    s9: "failed_reconnects now 9 s = Some s9" "in_backoff s9"
      "reconnectAttemptsRef s9 = reconnectAttemptsRef s + 9"
    by blast
  from s9(3) assms(2) have "MAX_RECONNECT_ATTEMPTS \<le> reconnectAttemptsRef s9"
    by (simp add: MAX_RECONNECT_ATTEMPTS_def)
  from failed_reconnect_exhausted [OF s9(2) this, of now] obtain t where
    t: "failed_reconnect now s9 = Some t" by blast
  have "failed_reconnects now (9 + 1) s = Some t"
    unfolding failed_reconnects_add by (simp add: s9(1) t)
  then have "failed_reconnects now 10 s = Some t" by simp
  from failed_reconnects_as_run [OF this] show ?thesis by blast
qed

lemma attempting_fails_once:
  fixes s :: "'n hook"
  assumes "attempting s" and "reconnectAttemptsRef s = 0"
  shows "\<exists>s1. step (ws_close_event (length (sockets s) - 1)) s = Some s1
           \<and> in_backoff s1 \<and> reconnectAttemptsRef s1 = 1"
proof -
  let ?e = "ws_close_event (length (sockets s) - 1) :: 'n event"
  from assms(1) have ne: "sockets s \<noteq> []" and la: "last (sockets s) = CONNECTING"
    by (simp_all add: attempting_def)
  from ne have n: "length (sockets s) - 1 < length (sockets s)" by (cases "sockets s") simp_all
  from ne la have "sockets s ! (length (sockets s) - 1) = CONNECTING"
    by (simp add: last_conv_nth)
  with n obtain s1 where s1: "step ?e s = Some s1" by (simp add: socket_in_def)
  have "failing ?e" "is_close ?e" by simp_all
  with attempting_step [OF assms(1) _ s1] assms(2)
  have "in_backoff s1 \<and> reconnectAttemptsRef s1 = 1"
    by (auto simp: MAX_RECONNECT_ATTEMPTS_def)
  with s1 show ?thesis by blast
qed

lemma exhaustion_run_exists_from_attempt:
  fixes s :: "'n hook"
  assumes "attempting s" and "reconnectAttemptsRef s = 0"
  shows "\<exists>es t. list_all failing es \<and> closes es = 11 \<and> run es s = Some t"
proof -
  let ?e = "ws_close_event (length (sockets s) - 1) :: 'n event"
  from attempting_fails_once [OF assms] obtain s1 where
    s1: "step ?e s = Some s1" "in_backoff s1" "reconnectAttemptsRef s1 = 1" by blast
  from exhaustion_run_exists [OF s1(2,3)] obtain es t where
    es: "list_all failing es" "closes es = 10" "run es s1 = Some t" by blast
  have "list_all failing (?e # es)" using es(1) by simp
  moreover have "closes (?e # es) = 11" using es(2) by (simp add: closes_def)
  moreover have "run (?e # es) s = Some t" using s1(1) es(3) by simp
  ultimately show ?thesis by blast
qed

lemma failing_run_exhausts:
  assumes "in_backoff s \<or> attempting s" and "reconnectAttemptsRef s \<le> 10"
    and "list_all failing es" and "run es s = Some s'"
  shows "reconnectAttemptsRef s + closes es \<le> 11"
    and "reconnectAttemptsRef s + closes es < 11 \<Longrightarrow>
           (in_backoff s' \<or> attempting s')
           \<and> reconnectAttemptsRef s' = reconnectAttemptsRef s + closes es
           \<and> exhaustion_calls s' = exhaustion_calls s"
    and "reconnectAttemptsRef s + closes es = 11 \<Longrightarrow>
           dormant s' \<and> exhaustion_calls s' = exhaustion_calls s + 1
           \<and> reconnectAttemptsRef s' = 10
           \<and> (\<forall>e. automatic e \<longrightarrow> step e s' = None)
           \<and> wsRef (resetConnection s') = Some (length (sockets s'))
           \<and> socket_in (resetConnection s') CONNECTING (length (sockets s'))
           \<and> timers (resetConnection s') = []
           \<and> reconnectAttemptsRef (resetConnection s') = 0"
proof -
  from assms(2) have le: "reconnectAttemptsRef s \<le> MAX_RECONNECT_ATTEMPTS"
    by (simp add: MAX_RECONNECT_ATTEMPTS_def)
  note R = failing_run [OF assms(1) le assms(3,4), unfolded MAX_RECONNECT_ATTEMPTS_def]
  from R show "reconnectAttemptsRef s + closes es \<le> 11" by auto
  from R show "(in_backoff s' \<or> attempting s')
           \<and> reconnectAttemptsRef s' = reconnectAttemptsRef s + closes es
           \<and> exhaustion_calls s' = exhaustion_calls s"
    if "reconnectAttemptsRef s + closes es < 11"
    using that by auto
  show "dormant s' \<and> exhaustion_calls s' = exhaustion_calls s + 1
           \<and> reconnectAttemptsRef s' = 10
           \<and> (\<forall>e. automatic e \<longrightarrow> step e s' = None)
           \<and> wsRef (resetConnection s') = Some (length (sockets s'))
           \<and> socket_in (resetConnection s') CONNECTING (length (sockets s'))
           \<and> timers (resetConnection s') = []
           \<and> reconnectAttemptsRef (resetConnection s') = 0"
    if eq: "reconnectAttemptsRef s + closes es = 11"
  proof -
    from R eq have at: "dormant s'" "isMountedRef s'"
      "exhaustion_calls s' = exhaustion_calls s + 1" "reconnectAttemptsRef s' = 10"
      by auto
    from dormant_no_automatic [OF at(1)]
    have quiet: "\<forall>e. automatic e \<longrightarrow> step e s' = None" by blast
    note f = resetConnection_fields [OF at(2)]
    from at(1) have "timers s' = []" by (simp add: dormant_def)
    then have tm: "timers (resetConnection s') = []" by (simp add: f(3))
    have sock: "socket_in (resetConnection s') CONNECTING (length (sockets s'))"
      using disconnect_length [of s'] by (simp add: socket_in_def f(1) nth_append)
    from at quiet f(2,4) tm sock show ?thesis by simp
  qed
qed

subsection \<open>The example runs\<close>

lemmas run_eval =
  hook_defs Let_def upt_rec [of 1] upt_rec [of "Suc n" for n] upt_rec [of "numeral n" for n]

lemma run_ten_failures: "run (cold_start_failures 10) initial_hook = Some ten_failures_hook"
  by (simp add: cold_start_failures_def retry_fails_def attempt_fails_def initial_hook_def
      ten_failures_hook_def run_eval)

lemma run_exhausted: "run (concat (map retry_fails [1..<11])) backoff_hook = Some exhausted_hook"
  by (simp add: retry_fails_def attempt_fails_def backoff_hook_def exhausted_hook_def run_eval)

lemma closes_retries: "closes (concat (map retry_fails [1..<11])) = 10"
  "list_all failing (concat (map retry_fails [1..<11]))"
  by code_simp+

lemma run_strict: "map_option exhaustion_calls (run strict_mode_failures initial_hook) = Some 2"
  by (simp add: strict_mode_failures_def hook_defs initial_hook_def exhaustion_calls_def Let_def
      upt_rec [of 1] upt_rec [of "Suc n" for n] upt_rec [of "numeral n" for n])

lemma run_leaked_timer:
  "run [run_effect, call_resetConnection, ws_close_event 0, ws_close_event 1] initial_hook
     = Some leaked_timer_hook"
  by (simp add: initial_hook_def leaked_timer_hook_def hook_defs Let_def)

lemma reachable_leaked_timer: "reachable leaked_timer_hook"
  using reachable_run [OF reachable_initial run_leaked_timer] .

subsection \<open>The reset of the specification\<close>




subsection \<open>The claims about the connection manager\<close>

text \<open>
  Claim C2: with the attempt counter at \<open>a\<close>, for every \<open>a\<close> from 0 to 9 the
  reconnect delay is \<open>min (1000 * 2 ^ a) 30000\<close>; the delay does not decrease when the
  counter grows, never exceeds 30000, and is 30000 for every \<open>a \<ge> 9\<close>. The delays for
  the attempts 0 to 9 are listed.
\<close>

theorem backoff_delay:
  "(a \<le> 9 \<longrightarrow> getReconnectDelay (s\<lparr>reconnectAttemptsRef := a\<rparr>) = min (1000 * 2 ^ a) 30000)
   \<and> (a \<le> b \<longrightarrow> getReconnectDelay (s\<lparr>reconnectAttemptsRef := a\<rparr>)
                    \<le> getReconnectDelay (s\<lparr>reconnectAttemptsRef := b\<rparr>))
   \<and> getReconnectDelay (s\<lparr>reconnectAttemptsRef := a\<rparr>) \<le> 30000
   \<and> (9 \<le> a \<longrightarrow> getReconnectDelay (s\<lparr>reconnectAttemptsRef := a\<rparr>) = 30000)
   \<and> map (\<lambda>k. getReconnectDelay (s\<lparr>reconnectAttemptsRef := k\<rparr>)) [0..<10]
        = [1000, 2000, 4000, 8000, 16000, 30000, 30000, 30000, 30000, 30000]"
proof -
  have d: "getReconnectDelay (s\<lparr>reconnectAttemptsRef := k\<rparr>) = min (1000 * 2 ^ k) 30000" for k
    by (simp add: getReconnectDelay_def BASE_RECONNECT_DELAY_MS_def MAX_RECONNECT_DELAY_MS_def)
  have mono: "min (1000 * 2 ^ a) 30000 \<le> min (1000 * 2 ^ b) (30000::nat)" if "a \<le> b"
  proof -
    from that have "(2::nat) ^ a \<le> 2 ^ b" by (intro power_increasing) simp_all
    then have "(1000::nat) * 2 ^ a \<le> 1000 * 2 ^ b" by simp
    then show ?thesis by (rule min.mono) simp
  qed
  have cap: "min (1000 * 2 ^ a) 30000 = (30000::nat)" if "9 \<le> a"
    using that by (intro delay_cap) simp
  from mono cap delay_values [of s] show ?thesis unfolding d by simp
qed

text \<open>The counter at 9, compared with the counter at 10.\<close>

theorem backoff_delay_witness:
  "getReconnectDelay (backoff_hook\<lparr>reconnectAttemptsRef := 9\<rparr>) = min (1000 * 2 ^ 9) 30000
   \<and> getReconnectDelay (backoff_hook\<lparr>reconnectAttemptsRef := 9\<rparr>)
        \<le> getReconnectDelay (backoff_hook\<lparr>reconnectAttemptsRef := 10\<rparr>)
   \<and> getReconnectDelay (backoff_hook\<lparr>reconnectAttemptsRef := 9\<rparr>) = 30000
   \<and> (9::nat) \<le> 10"
  using backoff_delay [of 9 backoff_hook 10] by simp


text \<open>
  Claim C3 counts the failed attempts from the first one. The handler of the close event
  compares the counter with 10 before it increments it, and the counter is 0 when the
  first attempt fails: each of the first ten closes schedules a reconnect (the attempts
  the code logs as 1/10 to 10/10). A mounted hook whose first ten connection attempts have
  all failed has the timer of reconnect attempt 10/10 pending (30000 ms) and has not
  called \<^verbatim>\<open>onMaxRetriesExceeded\<close>.

  The last part is a run in which the effect runs, is cleaned up and runs again, and the
  socket abandoned by the cleanup closes after the second mount. Its close handler
  schedules a reconnect next to that of the second socket and overwrites
  \<^verbatim>\<open>reconnectTimeoutRef\<close>; the callback is called twice in this run.
\<close>

theorem exhaustion_counterexample:
  "run (cold_start_failures 10) initial_hook = Some ten_failures_hook
   \<and> closes (cold_start_failures 10) = 10
   \<and> timers ten_failures_hook = [(10, timeout_connect 30000)]
   \<and> exhaustion_calls ten_failures_hook = 0
   \<and> map_option exhaustion_calls (run strict_mode_failures initial_hook) = Some 2"
proof -
  have "closes (cold_start_failures 10) = 10" by code_simp
  moreover have "timers ten_failures_hook = [(10, timeout_connect 30000)]"
    "exhaustion_calls ten_failures_hook = 0"
    by (simp_all add: ten_failures_hook_def exhaustion_calls_def)
  ultimately show ?thesis using run_ten_failures run_strict by simp
qed

text \<open>
  Claim C3, amended: a mounted hook with its first connection attempt in flight and
  nothing else pending (the state after mount: counter 0, no timer, no other socket that is
  not closed), in any run in which every connection attempt fails: the events are socket
  errors, socket closes and timers firing, in any order and number the hook allows, and no
  socket opens. Such a run holds at most 11 closes. As long as it holds fewer, a
  reconnect is pending or in progress, the counter is the number of closes and
  \<^verbatim>\<open>onMaxRetriesExceeded\<close> has not been called. With the 11th close, which is the
  failure of the 10th reconnect attempt, the callback has been called exactly once, no
  timer is pending, every socket is closed and no socket or timer event can occur any
  more: the connection stays closed. A call of \<open>resetConnection\<close> then starts a fresh
  attempt with the counter at 0. A run with 11 closes exists.

  Counted from a hook that waits for its first reconnect (counter 1, as after the first
  failure or after the loss of an open connection), the same holds with 10 closes: the
  callback fires with the 10th consecutive failed attempt.
\<close>

theorem exhaustion:
  assumes "attempting s" and "reconnectAttemptsRef s = 0"
    and "list_all failing es" and "run es s = Some s'"
  shows "closes es \<le> 11
       \<and> (closes es < 11 \<longrightarrow>
            (in_backoff s' \<or> attempting s') \<and> reconnectAttemptsRef s' = closes es
            \<and> exhaustion_calls s' = exhaustion_calls s)
       \<and> (closes es = 11 \<longrightarrow>
            dormant s' \<and> exhaustion_calls s' = exhaustion_calls s + 1
            \<and> reconnectAttemptsRef s' = 10
            \<and> (\<forall>e. automatic e \<longrightarrow> step e s' = None)
            \<and> wsRef (resetConnection s') = Some (length (sockets s'))
            \<and> socket_in (resetConnection s') CONNECTING (length (sockets s'))
            \<and> timers (resetConnection s') = []
            \<and> reconnectAttemptsRef (resetConnection s') = 0)
       \<and> (\<exists>es t. list_all failing es \<and> closes es = 11 \<and> run es s = Some t)
       \<and> (in_backoff c \<and> reconnectAttemptsRef c = 1 \<and> list_all failing cs
            \<and> run cs c = Some c' \<longrightarrow>
              closes cs \<le> 10
              \<and> (closes cs < 10 \<longrightarrow>
                    (in_backoff c' \<or> attempting c') \<and> reconnectAttemptsRef c' = closes cs + 1
                    \<and> exhaustion_calls c' = exhaustion_calls c)
              \<and> (closes cs = 10 \<longrightarrow>
                    dormant c' \<and> exhaustion_calls c' = exhaustion_calls c + 1
                    \<and> reconnectAttemptsRef c' = 10
                    \<and> (\<forall>e. automatic e \<longrightarrow> step e c' = None)
                    \<and> timers (resetConnection c') = []
                    \<and> reconnectAttemptsRef (resetConnection c') = 0)
              \<and> (\<exists>es t. list_all failing es \<and> closes es = 10 \<and> run es c = Some t))"
proof -
  from assms(1,2) have start: "in_backoff s \<or> attempting s" "reconnectAttemptsRef s \<le> 10"
    by simp_all
  note R = failing_run_exhausts [OF start assms(3,4), unfolded assms(2)]
  have cold: "closes es \<le> 11"
    "closes es < 11 \<longrightarrow>
            (in_backoff s' \<or> attempting s') \<and> reconnectAttemptsRef s' = closes es
            \<and> exhaustion_calls s' = exhaustion_calls s"
    "closes es = 11 \<longrightarrow>
            dormant s' \<and> exhaustion_calls s' = exhaustion_calls s + 1
            \<and> reconnectAttemptsRef s' = 10
            \<and> (\<forall>e. automatic e \<longrightarrow> step e s' = None)
            \<and> wsRef (resetConnection s') = Some (length (sockets s'))
            \<and> socket_in (resetConnection s') CONNECTING (length (sockets s'))
            \<and> timers (resetConnection s') = []
            \<and> reconnectAttemptsRef (resetConnection s') = 0"
    using R by simp_all
  have warm: "closes cs \<le> 10
              \<and> (closes cs < 10 \<longrightarrow>
                    (in_backoff c' \<or> attempting c') \<and> reconnectAttemptsRef c' = closes cs + 1
                    \<and> exhaustion_calls c' = exhaustion_calls c)
              \<and> (closes cs = 10 \<longrightarrow>
                    dormant c' \<and> exhaustion_calls c' = exhaustion_calls c + 1
                    \<and> reconnectAttemptsRef c' = 10
                    \<and> (\<forall>e. automatic e \<longrightarrow> step e c' = None)
                    \<and> timers (resetConnection c') = []
                    \<and> reconnectAttemptsRef (resetConnection c') = 0)
              \<and> (\<exists>es t. list_all failing es \<and> closes es = 10 \<and> run es c = Some t)"
    if c: "in_backoff c" "reconnectAttemptsRef c = 1" "list_all failing cs" "run cs c = Some c'"
  proof -
    from c(1,2) have "in_backoff c \<or> attempting c" "reconnectAttemptsRef c \<le> 10"
      by simp_all
    note W = failing_run_exhausts [OF this c(3,4), unfolded c(2)]
    from W(1) have "closes cs \<le> 10" by simp
    moreover from W(2) have "(in_backoff c' \<or> attempting c')
        \<and> reconnectAttemptsRef c' = closes cs + 1
        \<and> exhaustion_calls c' = exhaustion_calls c" if "closes cs < 10"
      using that by simp
    moreover from W(3) have "dormant c' \<and> exhaustion_calls c' = exhaustion_calls c + 1
        \<and> reconnectAttemptsRef c' = 10
        \<and> (\<forall>e. automatic e \<longrightarrow> step e c' = None)
        \<and> timers (resetConnection c') = []
        \<and> reconnectAttemptsRef (resetConnection c') = 0" if "closes cs = 10"
      using that by simp
    ultimately show ?thesis using exhaustion_run_exists [OF c(1,2)] by blast
  qed
  from cold warm exhaustion_run_exists_from_attempt [OF assms(1,2)] show ?thesis by blast
qed

text \<open>The run of 11 failures from the state after mount, whose last 10 are the run from
  the state that waits for the first reconnect.\<close>

theorem exhaustion_witness:
  "attempting connecting_hook \<and> reconnectAttemptsRef connecting_hook = 0
   \<and> list_all failing (attempt_fails 0 @ concat (map retry_fails [1..<11]))
   \<and> closes (attempt_fails 0 @ concat (map retry_fails [1..<11])) = 11
   \<and> run (attempt_fails 0 @ concat (map retry_fails [1..<11])) connecting_hook
       = Some exhausted_hook
   \<and> dormant exhausted_hook
   \<and> exhaustion_calls exhausted_hook = exhaustion_calls connecting_hook + 1
   \<and> exhaustion_calls exhausted_hook = 1
   \<and> step (timer_event 10 0) exhausted_hook = None
   \<and> step (ws_close_event 10) exhausted_hook = None
   \<and> reconnectAttemptsRef (resetConnection exhausted_hook) = 0
   \<and> in_backoff backoff_hook \<and> reconnectAttemptsRef backoff_hook = 1
   \<and> list_all failing (concat (map retry_fails [1..<11]))
   \<and> closes (concat (map retry_fails [1..<11])) = 10
   \<and> run (concat (map retry_fails [1..<11])) backoff_hook = Some exhausted_hook
   \<and> exhaustion_calls exhausted_hook = exhaustion_calls backoff_hook + 1"
proof -
  let ?rs = "concat (map retry_fails [1..<11])"
  have b: "in_backoff backoff_hook" "reconnectAttemptsRef backoff_hook = 1"
    by (simp_all add: in_backoff_def backoff_hook_def BASE_RECONNECT_DELAY_MS_def
        MAX_RECONNECT_DELAY_MS_def)
  have c: "attempting connecting_hook" "reconnectAttemptsRef connecting_hook = 0"
    by (simp_all add: attempting_def connecting_hook_def)
  have f0: "list_all failing (attempt_fails 0)" "closes (attempt_fails 0) = 1"
    by (simp_all add: attempt_fails_def closes_def)
  have f: "list_all failing (attempt_fails 0 @ ?rs)" "closes (attempt_fails 0 @ ?rs) = 11"
    using f0 closes_retries by (simp_all add: closes_append)
  have r0: "run (attempt_fails 0) connecting_hook = Some backoff_hook"
    using run_backoff by (simp add: attempt_fails_def)
  have r: "run (attempt_fails 0 @ ?rs) connecting_hook = Some exhausted_hook"
    by (simp only: run_append r0 run_exhausted option.case)
  have n: "exhaustion_calls exhausted_hook = 1"
    by (simp add: exhausted_hook_def exhaustion_calls_def)
  have au: "automatic (timer_event 10 (0::int))" "automatic (ws_close_event 10 :: int event)"
    by simp_all
  note T = exhaustion [OF c f(1) r, where c = backoff_hook and cs = ?rs
      and c' = exhausted_hook]
  from T f(2) have d: "dormant exhausted_hook"
    "exhaustion_calls exhausted_hook = exhaustion_calls connecting_hook + 1"
    "\<forall>e. automatic e \<longrightarrow> step e exhausted_hook = None"
    "reconnectAttemptsRef (resetConnection exhausted_hook) = 0"
    by simp_all
  from d(3) au have q: "step (timer_event 10 0) exhausted_hook = None"
    "step (ws_close_event 10) exhausted_hook = None" by blast+
  from T b closes_retries run_exhausted
  have e: "exhaustion_calls exhausted_hook = exhaustion_calls backoff_hook + 1"
    by simp
  from b c f r n d(1,2,4) q closes_retries run_exhausted e show ?thesis by blast
qed

text \<open>
  Claim C4: in every reachable state no pong has been handed to \<^verbatim>\<open>onMessage\<close>. On an
  open socket every sequence of inbound frames is processed, and \<^verbatim>\<open>onMessage\<close> is
  called with exactly the decoded messages that are not pongs, in order; 100 pongs followed
  by one \<open>full_update\<close> call it exactly once, with the \<open>full_update\<close>. Each pong clears
  the pending pong timeout (the ref is \<^verbatim>\<open>null\<close> and the timer it named is no longer
  pending) and has no other effect on the outside.
\<close>

theorem pong_interception:
  assumes "reachable s"
  shows "list_all (\<lambda>m. \<not> is_pong m) (forwarded (effects s))
       \<and> (socket_in s OPEN i \<longrightarrow>
            (\<exists>s'. run (map (ws_message_event i) fs) s = Some s'
                 \<and> forwarded (effects s') = forwarded (effects s) @ application_messages fs))
       \<and> (socket_in s OPEN i \<and> list_all is_pong ps \<and> length ps = 100 \<longrightarrow>
            (\<exists>s'. run (map (ws_message_event i)
                         (map decoded ps @ [decoded (full_update summary realtime tp)])) s = Some s'
                 \<and> forwarded (effects s')
                     = forwarded (effects s) @ [full_update summary realtime tp]))
       \<and> (socket_in s OPEN i \<longrightarrow>
            (\<exists>s'. step (ws_message_event i (decoded (pong t server_time))) s = Some s'
                 \<and> heartbeatTimeoutRef s' = None
                 \<and> (case heartbeatTimeoutRef s of None \<Rightarrow> True
                     | Some t' \<Rightarrow> map_of (timers s') t' = None)
                 \<and> effects s' = effects s))"
proof -
  from assms have 1: "list_all (\<lambda>m. \<not> is_pong m) (forwarded (effects s))"
    using reachable_pong_free by (simp add: pong_free_def)
  have 2: "\<exists>s'. run (map (ws_message_event i) fs) s = Some s'
                 \<and> forwarded (effects s') = forwarded (effects s) @ application_messages fs"
    if "socket_in s OPEN i" for fs
    using reachable_open_mounted [OF assms that] that by (rule run_messages)
  have 3: "\<exists>s'. run (map (ws_message_event i)
                         (map decoded ps @ [decoded (full_update summary realtime tp)])) s = Some s'
                 \<and> forwarded (effects s')
                     = forwarded (effects s) @ [full_update summary realtime tp]"
    if "socket_in s OPEN i" "list_all is_pong ps"
    using 2 [OF that(1), of "map decoded ps @ [decoded (full_update summary realtime tp)]"]
      application_messages_pongs [OF that(2)]
    by (simp add: application_messages_append)
  have 4: "\<exists>s'. step (ws_message_event i (decoded (pong t server_time))) s = Some s'
                 \<and> heartbeatTimeoutRef s' = None
                 \<and> (case heartbeatTimeoutRef s of None \<Rightarrow> True
                     | Some t' \<Rightarrow> map_of (timers s') t' = None)
                 \<and> effects s' = effects s"
    if "socket_in s OPEN i"
    using that onmessage_pong [OF reachable_open_mounted [OF assms that],
        where t = t and st = server_time]
    by (simp split: option.splits)
  from 1 2 3 4 show ?thesis by blast
qed

text \<open>An open connection with a ping sent and the pong timeout (timer 2) pending.\<close>

theorem pong_interception_witness:
  "reachable connected_hook \<and> socket_in connected_hook OPEN 0
   \<and> forwarded (effects connected_hook) = []
   \<and> (\<exists>s'. run (map (ws_message_event 0)
                  (map decoded (replicate 100 (pong 1700000000000 ''12:00:00''))
                     @ [decoded (full_update None None None)])) connected_hook = Some s'
          \<and> forwarded (effects s') = [full_update None None None])
   \<and> (\<exists>s'. step (ws_message_event 0 (decoded (pong 1700000000000 ''12:00:00''))) connected_hook
              = Some s'
          \<and> heartbeatTimeoutRef s' = None \<and> map_of (timers s') 2 = None)"
proof -
  have o: "socket_in connected_hook OPEN 0"
    by (simp add: connected_hook_def socket_in_def)
  have f: "forwarded (effects connected_hook) = []"
    by (simp add: connected_hook_def)
  have h: "heartbeatTimeoutRef connected_hook = Some 2"
    by (simp add: connected_hook_def)
  have p: "list_all is_pong (replicate 100 (pong (1700000000000::int) ''12:00:00''))
      \<and> length (replicate 100 (pong (1700000000000::int) ''12:00:00'')) = 100"
    by (simp add: list_all_length)
  note t = pong_interception [OF reachable_connected, of 0 "[]"
      "replicate 100 (pong 1700000000000 ''12:00:00'')" None None None
      1700000000000 "''12:00:00''"]
  from t o p have "\<exists>s'. run (map (ws_message_event 0)
                  (map decoded (replicate 100 (pong 1700000000000 ''12:00:00''))
                     @ [decoded (full_update None None None)])) connected_hook = Some s'
          \<and> forwarded (effects s')
              = forwarded (effects connected_hook) @ [full_update None None None]"
    by blast
  then have a: "\<exists>s'. run (map (ws_message_event 0)
                  (map decoded (replicate 100 (pong 1700000000000 ''12:00:00''))
                     @ [decoded (full_update None None None)])) connected_hook = Some s'
          \<and> forwarded (effects s') = [full_update None None None]"
    by (simp only: f append_Nil)
  from t o have "\<exists>s'. step (ws_message_event 0 (decoded (pong 1700000000000 ''12:00:00''))) connected_hook
              = Some s'
          \<and> heartbeatTimeoutRef s' = None
          \<and> (case heartbeatTimeoutRef connected_hook of None \<Rightarrow> True
              | Some t' \<Rightarrow> map_of (timers s') t' = None)
          \<and> effects s' = effects connected_hook"
    by blast
  then have b: "\<exists>s'. step (ws_message_event 0 (decoded (pong 1700000000000 ''12:00:00''))) connected_hook
              = Some s'
          \<and> heartbeatTimeoutRef s' = None \<and> map_of (timers s') 2 = None"
    by (simp only: h option.case) blast
  from reachable_connected o f a b show ?thesis by blast
qed





text \<open>
  Claim C10: \<open>send\<close> while the transport is not open (no socket, or a socket that is
  connecting, closing or closed) returns the state unchanged: nothing is transmitted,
  nothing is kept for later, nothing fails. After \<open>disconnect\<close> and after the cleanup of
  the effect the transport is not open, so \<open>send\<close> does nothing there.
\<close>

theorem send_when_not_open:
  "(\<not> transport_open s \<longrightarrow> send message s = s \<and> step (call_send message) s = Some s)
   \<and> send message (disconnect s) = disconnect s
   \<and> send message (effect_cleanup s) = effect_cleanup s"
  by (simp add: send_def transport_open_def effect_cleanup_def disconnect_frame
      split: option.splits)

text \<open>\<open>send\<close> while the first socket is connecting, and while it is closed.\<close>

theorem send_when_not_open_witness:
  "\<not> transport_open connecting_hook
   \<and> send request_update connecting_hook = connecting_hook
   \<and> step (call_send request_update) connecting_hook = Some connecting_hook
   \<and> \<not> transport_open backoff_hook
   \<and> send (request_timeseries ''A'') backoff_hook = backoff_hook"
proof -
  have "\<not> transport_open connecting_hook" "\<not> transport_open backoff_hook"
    by (simp_all add: transport_open_def connecting_hook_def backoff_hook_def socket_in_def)
  with send_when_not_open [of connecting_hook request_update]
    send_when_not_open [of backoff_hook "request_timeseries ''A''"]
  show ?thesis by blast
qed



end
